theory Spec2Isabelle
  imports Main
begin

section \<open>The IR node model\<close>

text \<open>
  Modelled from the spec: the node classes of \<^verbatim>\<open>cinn/ir/ir.h\<close> are not among the sources; the
  constructors below are the node kinds that \<^verbatim>\<open>IRMutator\<close> dispatches over (one handler per
  kind in \<^verbatim>\<open>ir_mutator.h\<close>), with the children that the handlers name.

  \<^item> The unary and the binary operators share one handler each (the macros
    \<^verbatim>\<open>UNARY_OP_IMPL\<close> and \<^verbatim>\<open>BINARY_OP_IMPL\<close>), so they are one constructor with an operator tag.
  \<^item> \<open>For v min extent body\<close>; \<open>PolyFor v init condition inc body\<close>.
  \<^item> \<open>Var name bounds\<close>: the bounds are present exactly when the variable is a reduce axis.
  \<^item> \<open>Load tensor indices\<close>; \<open>Store tensor value indices\<close>.
  \<^item> \<open>Alloc extents condition body\<close>, \<open>IfThenElse condition true_case false_case\<close> and
    \<open>LetNode symbol body\<close> (the node \<^verbatim>\<open>Let\<close>): an undefined child is \<open>None\<close>.
  \<^item> \<open>Buffer name memory_type shape strides elem_offset\<close>.
  \<^item> \<open>Tensor name shape buffer axis body\<close>: the buffer, when defined, is given by its name
    and memory type; \<open>axis\<close> and \<open>body\<close> are the inline expansion of the tensor, the formal
    index variables and the expression over them (\<open>None\<close> when the tensor has none).
  \<^item> \<open>RangeNode\<close>, \<open>IterVar\<close>, \<open>Module\<close>, \<open>LoweredFunc\<close>, \<open>SumNode\<close> are the nodes \<^verbatim>\<open>_Range_\<close>,
    \<^verbatim>\<open>_IterVar_\<close>, \<^verbatim>\<open>_Module_\<close>, \<^verbatim>\<open>_LoweredFunc_\<close>, \<^verbatim>\<open>Sum\<close>.

  An expression is a tree: every node owns its children, and a deep copy (\<^verbatim>\<open>IRCopy\<close>) is the
  identity.
\<close>

datatype MemoryType = Heap | GPUShared | GPULocal | Stack

datatype UnaryOp = OpMinus | OpNot

datatype BinaryOp = OpAdd | OpSub | OpMul | OpDiv | OpMod | OpEQ | OpNE | OpLT | OpLE | OpGT | OpGE
  | OpAnd | OpOr | OpMin | OpMax

datatype Expr =
    IntImm int
  | UIntImm nat
  | FloatImm string
  | StringImm string
  | Unary UnaryOp Expr
  | Binary BinaryOp Expr Expr
  | Cast Expr
  | For string Expr Expr Expr
  | PolyFor string Expr Expr Expr Expr
  | Select Expr Expr Expr
  | IfThenElse Expr Expr "Expr option"
  | Block "Expr list"
  | Call string "Expr list" "Expr list"
  | Module "Expr list" "Expr list" "Expr list"
  | Var string "(Expr \<times> Expr) option"
  | Load Expr "Expr list"
  | Store Expr Expr "Expr list"
  | Alloc "Expr list" "Expr option" "Expr option"
  | Free
  | RangeNode
  | IterVar
  | Buffer string MemoryType "Expr list" "Expr list" Expr
  | Tensor string "Expr list" "(string \<times> MemoryType) option" "string list" "Expr option"
  | LoweredFunc string Expr
  | LetNode Expr "Expr option"
  | Reduce Expr Expr
  | Ramp Expr Expr
  | Broadcast Expr
  | FracOp Expr Expr
  | Power Expr Expr
  | Product "Expr list"
  | SumNode "Expr list"

section \<open>The default traversal of IRMutator\<close>

text \<open>
  \<open>IRMutator_slots e\<close> lists the children that the default handler of the kind of \<open>e\<close>
  passes to \<^verbatim>\<open>Visit\<close>, in the order of the calls in \<^verbatim>\<open>ir_mutator.h\<close>. The handler of a
  \<^verbatim>\<open>PolyFor\<close> visits the body and then the increment; the handler of a \<^verbatim>\<open>Load\<close> visits the
  indices; the handler of a \<^verbatim>\<open>Store\<close> visits the value, the tensor and the indices.
  \<open>IRMutator_store e cs\<close> writes the visited children back into their slots.
\<close>

definition defined_list :: "'a option \<Rightarrow> 'a list" where
  "defined_list x = (case x of None \<Rightarrow> [] | Some y \<Rightarrow> [y])"

fun IRMutator_slots :: "Expr \<Rightarrow> Expr list" where
  "IRMutator_slots (Unary op v) = [v]"
| "IRMutator_slots (Binary op a b) = [a, b]"
| "IRMutator_slots (IntImm i) = []"
| "IRMutator_slots (UIntImm n) = []"
| "IRMutator_slots (FloatImm f) = []"
| "IRMutator_slots (StringImm s) = []"
| "IRMutator_slots (Cast v) = [v]"
| "IRMutator_slots (For v mn ext body) = [mn, ext, body]"
| "IRMutator_slots (PolyFor v init cond inc body) = [body, inc]"
| "IRMutator_slots (Select c t f) = [c, t, f]"
| "IRMutator_slots (IfThenElse c t f) = c # t # defined_list f"
| "IRMutator_slots (Block stmts) = stmts"
| "IRMutator_slots (Call n rs ws) = rs @ ws"
| "IRMutator_slots (Module fs bs ms) = fs @ bs @ ms"
| "IRMutator_slots (Var n bnds) = (case bnds of None \<Rightarrow> [] | Some (lo, hi) \<Rightarrow> [lo, hi])"
| "IRMutator_slots (Load t idx) = idx"
| "IRMutator_slots (Store t v idx) = v # t # idx"
| "IRMutator_slots (Alloc exts c b) = exts @ defined_list c @ defined_list b"
| "IRMutator_slots Free = []"
| "IRMutator_slots RangeNode = []"
| "IRMutator_slots IterVar = []"
| "IRMutator_slots (Buffer n m sh st off) = sh @ st @ [off]"
| "IRMutator_slots (Tensor n sh b ax body) = sh"
| "IRMutator_slots (LoweredFunc n body) = [body]"
| "IRMutator_slots (LetNode s b) = s # defined_list b"
| "IRMutator_slots (Reduce i b) = [i, b]"
| "IRMutator_slots (Ramp b s) = [b, s]"
| "IRMutator_slots (Broadcast v) = [v]"
| "IRMutator_slots (FracOp a b) = [a, b]"
| "IRMutator_slots (Power a b) = [a, b]"
| "IRMutator_slots (Product xs) = xs"
| "IRMutator_slots (SumNode xs) = xs"

fun IRMutator_store :: "Expr \<Rightarrow> Expr list \<Rightarrow> Expr" where
  "IRMutator_store (Unary op v) cs = (case cs of [v'] \<Rightarrow> Unary op v' | _ \<Rightarrow> Unary op v)"
| "IRMutator_store (Binary op a b) cs = (case cs of [a', b'] \<Rightarrow> Binary op a' b' | _ \<Rightarrow> Binary op a b)"
| "IRMutator_store (IntImm i) cs = IntImm i"
| "IRMutator_store (UIntImm n) cs = UIntImm n"
| "IRMutator_store (FloatImm f) cs = FloatImm f"
| "IRMutator_store (StringImm s) cs = StringImm s"
| "IRMutator_store (Cast v) cs = (case cs of [v'] \<Rightarrow> Cast v' | _ \<Rightarrow> Cast v)"
| "IRMutator_store (For v mn ext body) cs =
     (case cs of [mn', ext', body'] \<Rightarrow> For v mn' ext' body' | _ \<Rightarrow> For v mn ext body)"
| "IRMutator_store (PolyFor v init cond inc body) cs =
     (case cs of [body', inc'] \<Rightarrow> PolyFor v init cond inc' body'
      | _ \<Rightarrow> PolyFor v init cond inc body)"
| "IRMutator_store (Select c t f) cs =
     (case cs of [c', t', f'] \<Rightarrow> Select c' t' f' | _ \<Rightarrow> Select c t f)"
| "IRMutator_store (IfThenElse c t f) cs =
     (case cs of [c', t'] \<Rightarrow> IfThenElse c' t' None
      | [c', t', f'] \<Rightarrow> IfThenElse c' t' (Some f')
      | _ \<Rightarrow> IfThenElse c t f)"
| "IRMutator_store (Block stmts) cs = Block cs"
| "IRMutator_store (Call n rs ws) cs = Call n (take (length rs) cs) (drop (length rs) cs)"
| "IRMutator_store (Module fs bs ms) cs =
     Module (take (length fs) cs) (take (length bs) (drop (length fs) cs))
       (drop (length fs + length bs) cs)"
| "IRMutator_store (Var n bnds) cs =
     (case cs of [lo', hi'] \<Rightarrow> Var n (Some (lo', hi')) | _ \<Rightarrow> Var n bnds)"
| "IRMutator_store (Load t idx) cs = Load t cs"
| "IRMutator_store (Store t v idx) cs =
     (case cs of v' # t' # idx' \<Rightarrow> Store t' v' idx' | _ \<Rightarrow> Store t v idx)"
| "IRMutator_store (Alloc exts c b) cs = Alloc exts c b"
| "IRMutator_store Free cs = Free"
| "IRMutator_store RangeNode cs = RangeNode"
| "IRMutator_store IterVar cs = IterVar"
| "IRMutator_store (Buffer n m sh st off) cs =
     (case drop (length sh + length st) cs of
        [off'] \<Rightarrow> Buffer n m (take (length sh) cs) (take (length st) (drop (length sh) cs)) off'
      | _ \<Rightarrow> Buffer n m sh st off)"
| "IRMutator_store (Tensor n sh b ax body) cs = Tensor n cs b ax body"
| "IRMutator_store (LoweredFunc n body) cs =
     (case cs of [body'] \<Rightarrow> LoweredFunc n body' | _ \<Rightarrow> LoweredFunc n body)"
| "IRMutator_store (LetNode s b) cs =
     (case cs of [s'] \<Rightarrow> LetNode s' None | [s', b'] \<Rightarrow> LetNode s' (Some b')
      | _ \<Rightarrow> LetNode s b)"
| "IRMutator_store (Reduce i b) cs = (case cs of [i', b'] \<Rightarrow> Reduce i' b' | _ \<Rightarrow> Reduce i b)"
| "IRMutator_store (Ramp b s) cs = (case cs of [b', s'] \<Rightarrow> Ramp b' s' | _ \<Rightarrow> Ramp b s)"
| "IRMutator_store (Broadcast v) cs = (case cs of [v'] \<Rightarrow> Broadcast v' | _ \<Rightarrow> Broadcast v)"
| "IRMutator_store (FracOp a b) cs = (case cs of [a', b'] \<Rightarrow> FracOp a' b' | _ \<Rightarrow> FracOp a b)"
| "IRMutator_store (Power a b) cs = (case cs of [a', b'] \<Rightarrow> Power a' b' | _ \<Rightarrow> Power a b)"
| "IRMutator_store (Product xs) cs = Product cs"
| "IRMutator_store (SumNode xs) cs = SumNode cs"

lemma store_slots: "IRMutator_store e (IRMutator_slots e) = e"
  by (cases e) (auto simp: defined_list_def split: option.splits)

lemma size_list_mem: "x \<in> set xs \<Longrightarrow> size x \<le> size_list size xs"
  by (induction xs) auto

lemma slots_size: "c \<in> set (IRMutator_slots e) \<Longrightarrow> size c < size e"
  by (cases e) (auto simp: defined_list_def less_Suc_eq_le split: option.splits dest: size_list_mem)

text \<open>
  A mutator is a set of overriding handlers on top of the default traversal. \<open>IRMutate h\<close>
  is the traversal of a mutator whose overriding handlers replace a node \<open>e\<close> by \<open>e'\<close> when
  \<open>h e = Some e'\<close> and leave every other node to the default handler. The default handler
  of \<^verbatim>\<open>Alloc\<close> visits the body through a copy of the slot (\<^verbatim>\<open>Expr body(node->body)\<close>), so a
  handler that overwrites the slot of the body has no effect on the node.
\<close>

function IRMutate :: "(Expr \<Rightarrow> Expr option) \<Rightarrow> Expr \<Rightarrow> Expr" where
  "IRMutate h e =
     (case h e of
        Some e' \<Rightarrow> e'
      | None \<Rightarrow>
          (case e of
             Alloc exts c b \<Rightarrow>
               Alloc (map (IRMutate h) exts) (map_option (IRMutate h) c)
                 (case b of None \<Rightarrow> None
                  | Some b0 \<Rightarrow> Some (if h b0 = None then IRMutate h b0 else b0))
           | _ \<Rightarrow> IRMutator_store e (map (IRMutate h) (IRMutator_slots e))))"
  by pat_completeness auto
termination
  apply (relation "measure (\<lambda>(h, e). size e)")
  apply simp
  apply (auto simp: less_Suc_eq_le defined_list_def dest: slots_size size_list_mem
      split: option.splits)
  done

declare IRMutate.simps [simp del]

definition is_Alloc :: "Expr \<Rightarrow> bool" where
  "is_Alloc e = (case e of Alloc exts c b \<Rightarrow> True | _ \<Rightarrow> False)"

lemma IRMutate_override: "h e = Some e' \<Longrightarrow> IRMutate h e = e'"
  by (subst IRMutate.simps) simp

lemma IRMutate_Alloc:
  "h (Alloc exts c b) = None \<Longrightarrow>
   IRMutate h (Alloc exts c b) =
     Alloc (map (IRMutate h) exts) (map_option (IRMutate h) c)
       (case b of None \<Rightarrow> None
        | Some b0 \<Rightarrow> Some (if h b0 = None then IRMutate h b0 else b0))"
  by (subst IRMutate.simps) simp

lemma IRMutate_default:
  "h e = None \<Longrightarrow> \<not> is_Alloc e \<Longrightarrow>
   IRMutate h e = IRMutator_store e (map (IRMutate h) (IRMutator_slots e))"
  by (subst IRMutate.simps) (auto simp: is_Alloc_def split: Expr.splits)

lemma take_take_drop:
  "take a cs @ take b (drop a cs) @ drop (a + b) cs = cs"
proof -
  have "drop (a + b) cs = drop b (drop a cs)" by (simp add: add.commute)
  then show ?thesis by (simp del: drop_drop)
qed

lemma slots_store:
  "\<not> is_Alloc e \<Longrightarrow> length cs = length (IRMutator_slots e) \<Longrightarrow>
   IRMutator_slots (IRMutator_store e cs) = cs"
proof (cases e)
  case (Buffer n m sh st off)
  assume len: "length cs = length (IRMutator_slots e)"
  with Buffer have "length (drop (length sh + length st) cs) = 1" by simp
  then obtain o' where o': "drop (length sh + length st) cs = [o']"
    by (cases "drop (length sh + length st) cs") auto
  with Buffer take_take_drop [of "length sh" cs "length st"] show ?thesis by simp
qed (auto simp: is_Alloc_def defined_list_def length_Suc_conv take_take_drop
       split: option.splits list.splits)

section \<open>Strings, stages and the helpers of the inline pass\<close>

text \<open>
  Modelled from the spec: \<^verbatim>\<open>utils::Startswith\<close> (\<^verbatim>\<open>cinn/utils/string.h\<close> is not among the
  sources), the prefix test.
\<close>

definition Startswith :: "string \<Rightarrow> string \<Rightarrow> bool" where
  "Startswith s p = (take (length p) s = p)"

text \<open>
  Modelled from the spec: \<^verbatim>\<open>utils::Endswith\<close> (not among the sources), the suffix test.
\<close>

definition Endswith :: "string \<Rightarrow> string \<Rightarrow> bool" where
  "Endswith s p = (length p \<le> length s \<and> drop (length s - length p) s = p)"

text \<open>
  \<open>size_t_sub\<close> is the subtraction of \<^verbatim>\<open>size_t\<close>, which wraps around below zero, and
  \<open>substr s pos n\<close> is \<^verbatim>\<open>s.substr(pos, n)\<close> for a position inside the string: at most \<open>n\<close>
  characters from \<open>pos\<close> on.
\<close>

definition size_t_sub :: "nat \<Rightarrow> nat \<Rightarrow> nat" where
  "size_t_sub a b = (if b \<le> a then a - b else a + 2 ^ 64 - b)"

definition substr :: "string \<Rightarrow> nat \<Rightarrow> nat \<Rightarrow> string" where
  "substr s pos n = take n (drop pos s)"

lemma Endswith_strip:
  "Endswith n suffix \<Longrightarrow> substr n 0 (size_t_sub (length n) (length suffix)) @ suffix = n"
  using append_take_drop_id [of "length n - length suffix" n]
  by (auto simp: Endswith_def substr_def size_t_sub_def)

text \<open>
  The fatal outcomes of the pass: a failed \<^verbatim>\<open>CHECK\<close>, \<^verbatim>\<open>std::map::at\<close> on a missing key, the
  dereference of a null tensor or buffer, and an index outside \<^verbatim>\<open>axis_names\<close>.
\<close>

datatype error = CheckFailed | OutOfRange | NullDeref | OutOfBounds

text \<open>
  Modelled from the spec: \<^verbatim>\<open>poly::Stage\<close> and \<^verbatim>\<open>poly::StageMap\<close> are not among the sources. A
  stage is given by what the pass reads from it: \<^verbatim>\<open>inlined()\<close>, \<^verbatim>\<open>axis_names()\<close> and
  \<^verbatim>\<open>GetComputeAts()\<close> (the tensors it computes at, each with its level). The stage map is a
  function from the tensor name to the stage.
\<close>

record Stage =
  inlined :: bool
  axis_names :: "string list"
  compute_ats :: "(string \<times> int) list"

text \<open>
  The three flags of \<^verbatim>\<open>TensorInlineExpandMutator\<close>; the tensor name, the tensor map and the
  stages are never written and are parameters.
\<close>

record flags =
  inline_code :: bool
  temp_buffer :: bool
  memory_local :: bool

type_synonym tensor_map = "string \<rightharpoonup> Expr"

definition as_tensor ::
  "Expr \<Rightarrow> (string \<times> (string \<times> MemoryType) option \<times> string list \<times> Expr option) option" where
  "as_tensor e = (case e of Tensor n sh bf ax body \<Rightarrow> Some (n, bf, ax, body) | _ \<Rightarrow> None)"

text \<open>
  \<open>subst_vars \<sigma>\<close> is the mutator whose \<^verbatim>\<open>_Var_\<close> handler overwrites a variable named \<open>n\<close> by
  \<open>e\<close> when \<open>\<sigma> n = Some e\<close>; every other node takes the default traversal.
\<close>

definition var_override :: "(string \<Rightarrow> Expr option) \<Rightarrow> Expr \<Rightarrow> Expr option" where
  "var_override \<sigma> e = (case e of Var n b \<Rightarrow> \<sigma> n | _ \<Rightarrow> None)"

definition subst_vars :: "(string \<Rightarrow> Expr option) \<Rightarrow> Expr \<Rightarrow> Expr" where
  "subst_vars \<sigma> = IRMutate (var_override \<sigma>)"

text \<open>
  Modelled from the spec: \<^verbatim>\<open>ReplaceVarWithExpr\<close> (\<^verbatim>\<open>cinn/optim/replace_var_with_expr.cc\<close> is not
  among the sources) replaces the variable named \<open>v\<close> by the expression \<open>r\<close>.
\<close>

definition ReplaceVarWithExpr :: "string \<Rightarrow> Expr \<Rightarrow> Expr \<Rightarrow> Expr" where
  "ReplaceVarWithExpr v r e = subst_vars (\<lambda>n. if n = v then Some r else None) e"

text \<open>
  Modelled from the spec: \<^verbatim>\<open>_Tensor_::inline_expanded\<close> (\<^verbatim>\<open>cinn/ir/tensor.cc\<close> is not among the
  sources) is the inline expansion of a tensor at the given indices: the body with the
  formal index variables replaced, by position, by the indices. A tensor marked inlined
  must carry an expansion; without one the call is a fatal error.
\<close>

definition inline_expanded :: "string list \<Rightarrow> Expr option \<Rightarrow> Expr list \<Rightarrow> error + Expr" where
  "inline_expanded ax body indices =
     (case body of
        None \<Rightarrow> Inl CheckFailed
      | Some b \<Rightarrow> Inr (subst_vars (map_of (zip ax indices)) b))"

text \<open>
  The loop of lines 87-103 and 108-124 of \<^verbatim>\<open>compute_inline_expand.cc\<close>: with at most one
  compute-at relation, of level \<open>level_tmp\<close>, every index has the variables named
  \<open>axis_names[0..level_tmp]\<close> replaced by zero, one after the other.
\<close>

definition compute_at_zero :: "Stage \<Rightarrow> Expr list \<Rightarrow> error + Expr list" where
  "compute_at_zero sg indices =
     (if 1 < length (compute_ats sg) then Inl CheckFailed
      else if length (compute_ats sg) = 1 then
        (let level_tmp = snd (last (compute_ats sg)) in
         if indices \<noteq> [] \<and> 0 \<le> level_tmp \<and> length (axis_names sg) \<le> nat level_tmp
         then Inl OutOfBounds
         else Inr (map (fold (\<lambda>a. ReplaceVarWithExpr a (IntImm 0))
                          (take (nat (level_tmp + 1)) (axis_names sg))) indices))
      else Inr indices)"

text \<open>
  \<open>memory_type_at M n\<close> is \<^verbatim>\<open>(*all_tensor_map_).at(n)->buffer->memory_type\<close>.
  \<open>slot_overwritten tn e\<close> holds for the nodes whose handler in \<^verbatim>\<open>TensorInlineExpandMutator\<close>
  writes to the slot itself (\<^verbatim>\<open>*op = ...\<close>) and not to the node.
\<close>

definition memory_type_at :: "(string \<rightharpoonup> Expr) \<Rightarrow> string \<Rightarrow> error + MemoryType" where
  "memory_type_at M n =
     (case M n of
        None \<Rightarrow> Inl OutOfRange
      | Some t \<Rightarrow>
          (case as_tensor t of
             Some (n', Some (bname, mt), ax, body) \<Rightarrow> Inr mt
           | _ \<Rightarrow> Inl NullDeref))"

definition slot_overwritten :: "string \<Rightarrow> Expr \<Rightarrow> bool" where
  "slot_overwritten tn e =
     (case e of
        Var n b \<Rightarrow> True
      | Tensor n sh bf ax body \<Rightarrow> True
      | Load t idx \<Rightarrow> (case as_tensor t of Some (n, bf, ax, body) \<Rightarrow> n = tn | None \<Rightarrow> False)
      | _ \<Rightarrow> False)"

section \<open>A measure for the termination of the mutator\<close>

text \<open>
  The mutator visits the expansion that it has just written, so its recursion is not
  structural. \<open>msz \<rho> e\<close> bounds the size of \<open>e\<close> with every load expanded, where \<open>\<rho>\<close> gives
  the size of the expression that stands for a variable.
\<close>

definition bind_sizes :: "string list \<Rightarrow> nat list \<Rightarrow> string \<Rightarrow> nat" where
  "bind_sizes ax ns v = (case map_of (zip ax ns) v of Some k \<Rightarrow> k | None \<Rightarrow> 0)"

function msz :: "(string \<Rightarrow> nat) \<Rightarrow> Expr \<Rightarrow> nat" where
  "msz \<rho> e =
     (case e of
        Var n b \<Rightarrow> \<rho> n + sum_list (map (\<lambda>c. Suc (msz \<rho> c)) (IRMutator_slots e))
      | Load t idx \<Rightarrow>
          Suc (msz \<rho> t + sum_list (map (\<lambda>c. Suc (msz \<rho> c)) idx)
            + (case as_tensor t of
                 Some (n, bf, ax, Some body) \<Rightarrow> msz (bind_sizes ax (map (msz \<rho>) idx)) body
               | _ \<Rightarrow> 0))
      | _ \<Rightarrow> sum_list (map (\<lambda>c. Suc (msz \<rho> c)) (IRMutator_slots e)))"
  by pat_completeness auto
termination
  apply (relation "measure (\<lambda>(r, e). size e)")
  apply simp
  apply (auto simp: less_Suc_eq_le defined_list_def as_tensor_def dest: slots_size size_list_mem
      split: option.splits Expr.splits)
  done

declare msz.simps [simp del]

definition default_kind :: "Expr \<Rightarrow> bool" where
  "default_kind e = (case e of Var n b \<Rightarrow> False | Load t idx \<Rightarrow> False | _ \<Rightarrow> True)"

lemma msz_Var: "msz \<rho> (Var n b) = \<rho> n + sum_list (map (\<lambda>c. Suc (msz \<rho> c)) (IRMutator_slots (Var n b)))"
  by (subst msz.simps) simp

lemma msz_Load:
  "msz \<rho> (Load t idx) =
     Suc (msz \<rho> t + sum_list (map (\<lambda>c. Suc (msz \<rho> c)) idx)
       + (case as_tensor t of
            Some (n, bf, ax, Some body) \<Rightarrow> msz (bind_sizes ax (map (msz \<rho>) idx)) body
          | _ \<Rightarrow> 0))"
  by (subst msz.simps) simp

lemma msz_default:
  "default_kind e \<Longrightarrow> msz \<rho> e = sum_list (map (\<lambda>c. Suc (msz \<rho> c)) (IRMutator_slots e))"
  by (subst msz.simps) (auto simp: default_kind_def split: Expr.splits)

lemma bind_sizes_mono:
  "list_all2 (\<le>) ns ms \<Longrightarrow> bind_sizes ax ns v \<le> bind_sizes ax ms v"
proof (induction ax arbitrary: ns ms)
  case Nil
  then show ?case by (simp add: bind_sizes_def)
next
  case (Cons a ax)
  show ?case
  proof (cases ns)
    case Nil
    with Cons.prems show ?thesis by (simp add: bind_sizes_def)
  next
    case (Cons k ks)
    with Cons.prems obtain m ms' where ms: "ms = m # ms'" "k \<le> m" "list_all2 (\<le>) ks ms'"
      by (auto simp: list_all2_Cons1)
    from Cons.IH [OF ms(3)] Cons ms show ?thesis
      by (auto simp: bind_sizes_def)
  qed
qed

lemma sum_list_Suc_mono:
  "(\<And>c. c \<in> set cs \<Longrightarrow> f c \<le> g c) \<Longrightarrow>
   sum_list (map (\<lambda>c. Suc (f c)) cs) \<le> sum_list (map (\<lambda>c. Suc (g c)) cs)"
  by (induction cs) (auto simp: add_le_mono)

lemma as_tensor_body_size:
  "as_tensor t = Some (n, bf, ax, Some body) \<Longrightarrow> size body < size t"
  by (cases t) (auto simp: as_tensor_def)

lemma msz_mono: "(\<And>v. \<rho> v \<le> \<rho>' v) \<Longrightarrow> msz \<rho> e \<le> msz \<rho>' e"
proof (induction e arbitrary: \<rho> \<rho>' rule: measure_induct_rule [of size])
  case (less e)
  have slots: "sum_list (map (\<lambda>c. Suc (msz \<rho> c)) (IRMutator_slots e))
          \<le> sum_list (map (\<lambda>c. Suc (msz \<rho>' c)) (IRMutator_slots e))"
    by (rule sum_list_Suc_mono) (use less in \<open>auto dest: slots_size\<close>)
  consider n b where "e = Var n b" | t idx where "e = Load t idx" | "default_kind e"
    by (cases e) (auto simp: default_kind_def)
  then show ?case
  proof cases
    case 1
    with slots less.prems show ?thesis by (simp add: msz_Var add_le_mono)
  next
    case 2
    have a: "msz \<rho> t \<le> msz \<rho>' t" using less 2 by auto
    have b: "sum_list (map (\<lambda>c. Suc (msz \<rho> c)) idx) \<le> sum_list (map (\<lambda>c. Suc (msz \<rho>' c)) idx)"
      using slots 2 by simp
    have l: "list_all2 (\<le>) (map (msz \<rho>) idx) (map (msz \<rho>') idx)"
      using less 2 by (auto simp: list_all2_conv_all_nth less_Suc_eq_le dest!: size_list_mem nth_mem)
    have c: "(case as_tensor t of
            Some (n, bf, ax, Some body) \<Rightarrow> msz (bind_sizes ax (map (msz \<rho>) idx)) body
          | _ \<Rightarrow> 0) \<le> (case as_tensor t of
            Some (n, bf, ax, Some body) \<Rightarrow> msz (bind_sizes ax (map (msz \<rho>') idx)) body
          | _ \<Rightarrow> 0)"
    proof (cases "as_tensor t")
      case None
      then show ?thesis by simp
    next
      case (Some q)
      then obtain n bf ax bo where q: "as_tensor t = Some (n, bf, ax, bo)" by (cases q) auto
      show ?thesis
      proof (cases bo)
        case None
        with q show ?thesis by simp
      next
        case (Some body)
        have "size body < size e" using as_tensor_body_size [of t n bf ax body] q Some 2 by simp
        then have "msz (bind_sizes ax (map (msz \<rho>) idx)) body \<le> msz (bind_sizes ax (map (msz \<rho>') idx)) body"
          using bind_sizes_mono [OF l] by (intro less.IH) auto
        with q Some show ?thesis by simp
      qed
    qed
    from a b c 2 show ?thesis by (simp add: msz_Load)
  next
    case 3
    with slots show ?thesis by (simp add: msz_default)
  qed
qed

lemma default_kind_store:
  "default_kind (IRMutator_store e cs) = default_kind e"
  by (cases e) (auto simp: default_kind_def split: list.splits)

lemma msz_store:
  "default_kind e \<Longrightarrow> \<not> is_Alloc e \<Longrightarrow> length cs = length (IRMutator_slots e) \<Longrightarrow>
   msz \<rho> (IRMutator_store e cs) = sum_list (map (\<lambda>c. Suc (msz \<rho> c)) cs)"
  by (simp add: msz_default default_kind_store slots_store)

lemma msz_store_Var:
  "length cs = length (IRMutator_slots (Var n b)) \<Longrightarrow>
   msz \<rho> (IRMutator_store (Var n b) cs) = \<rho> n + sum_list (map (\<lambda>c. Suc (msz \<rho> c)) cs)"
  by (auto simp: msz_Var length_Suc_conv split: option.splits list.splits)

abbreviation fresh_sizes :: "string \<Rightarrow> nat" where
  "fresh_sizes \<equiv> (\<lambda>v. 0)"

definition subst_sizes :: "(string \<Rightarrow> Expr option) \<Rightarrow> string \<Rightarrow> nat" where
  "subst_sizes \<sigma> v = (case \<sigma> v of Some a \<Rightarrow> msz fresh_sizes a | None \<Rightarrow> 0)"

lemma msz_subst_vars:
  "msz fresh_sizes (subst_vars \<sigma> e) \<le> msz (subst_sizes \<sigma>) e"
proof (induction e rule: measure_induct_rule [of size])
  case (less e)
  let ?h = "var_override \<sigma>"
  have le: "\<And>v. fresh_sizes v \<le> subst_sizes \<sigma> v" by simp
  have IH: "\<And>c. c \<in> set (IRMutator_slots e) \<Longrightarrow>
      msz fresh_sizes (IRMutate ?h c) \<le> msz (subst_sizes \<sigma>) c"
    using less by (auto dest: slots_size simp: subst_vars_def)
  have slots: "sum_list (map (\<lambda>c. Suc (msz fresh_sizes c)) (map (IRMutate ?h) (IRMutator_slots e)))
      \<le> sum_list (map (\<lambda>c. Suc (msz (subst_sizes \<sigma>) c)) (IRMutator_slots e))"
    using sum_list_Suc_mono [of "IRMutator_slots e" "\<lambda>c. msz fresh_sizes (IRMutate ?h c)"
        "msz (subst_sizes \<sigma>)"] IH
    by (simp add: comp_def)
  consider n b a where "e = Var n b" "\<sigma> n = Some a"
    | n b where "e = Var n b" "\<sigma> n = None"
    | t idx where "e = Load t idx"
    | exts c b where "e = Alloc exts c b"
    | "default_kind e" "\<not> is_Alloc e"
    by (cases e) (auto simp: default_kind_def is_Alloc_def)
  then show ?case
  proof cases
    case 1
    then show ?thesis
      by (simp add: subst_vars_def IRMutate_override var_override_def msz_Var subst_sizes_def)
  next
    case 2
    then have "subst_vars \<sigma> e = IRMutator_store e (map (IRMutate ?h) (IRMutator_slots e))"
      by (simp add: subst_vars_def IRMutate_default var_override_def is_Alloc_def)
    then have "msz fresh_sizes (subst_vars \<sigma> e)
        = fresh_sizes n + sum_list (map (\<lambda>c. Suc (msz fresh_sizes c))
            (map (IRMutate ?h) (IRMutator_slots e)))"
      using 2 by (simp add: msz_store_Var del: IRMutator_slots.simps IRMutator_store.simps)
    moreover have "msz (subst_sizes \<sigma>) e
        = subst_sizes \<sigma> n + sum_list (map (\<lambda>c. Suc (msz (subst_sizes \<sigma>) c)) (IRMutator_slots e))"
      using 2 by (simp add: msz_Var del: IRMutator_slots.simps)
    ultimately show ?thesis using slots by simp
  next
    case 3
    then have eq: "subst_vars \<sigma> e = Load t (map (IRMutate ?h) idx)"
      by (simp add: subst_vars_def IRMutate_default var_override_def is_Alloc_def)
    have a: "msz fresh_sizes t \<le> msz (subst_sizes \<sigma>) t" by (rule msz_mono) (rule le)
    have l: "list_all2 (\<le>) (map (msz fresh_sizes) (map (IRMutate ?h) idx)) (map (msz (subst_sizes \<sigma>)) idx)"
      using IH 3 by (auto simp: list_all2_conv_all_nth)
    have c: "(case as_tensor t of
            Some (n, bf, ax, Some body) \<Rightarrow>
              msz (bind_sizes ax (map (msz fresh_sizes) (map (IRMutate ?h) idx))) body
          | _ \<Rightarrow> 0) \<le> (case as_tensor t of
            Some (n, bf, ax, Some body) \<Rightarrow> msz (bind_sizes ax (map (msz (subst_sizes \<sigma>)) idx)) body
          | _ \<Rightarrow> 0)"
      using bind_sizes_mono [OF l] by (auto split: option.splits intro!: msz_mono)
    from a slots c 3 eq show ?thesis by (simp add: msz_Load)
  next
    case 4
    have h: "?h e = None" using 4 by (simp add: var_override_def)
    have b: "\<And>b0. b = Some b0 \<Longrightarrow>
        msz fresh_sizes (if ?h b0 = None then IRMutate ?h b0 else b0) \<le> msz (subst_sizes \<sigma>) b0"
      using IH 4 le by (auto simp: defined_list_def intro!: msz_mono)
    have c: "\<And>c0. c = Some c0 \<Longrightarrow> msz fresh_sizes (IRMutate ?h c0) \<le> msz (subst_sizes \<sigma>) c0"
      using IH 4 by (auto simp: defined_list_def)
    have e: "sum_list (map (\<lambda>c. Suc (msz fresh_sizes c)) (map (IRMutate ?h) exts))
      \<le> sum_list (map (\<lambda>c. Suc (msz (subst_sizes \<sigma>) c)) exts)"
      using sum_list_Suc_mono [of exts "\<lambda>c. msz fresh_sizes (IRMutate ?h c)"
        "msz (subst_sizes \<sigma>)"] IH 4
      by (simp add: comp_def)
    show ?thesis
      using h 4 b c e
      by (cases b; cases c)
        (auto simp: subst_vars_def IRMutate_Alloc msz_default default_kind_def defined_list_def
           simp del: if_split split del: if_split)
  next
    case 5
    then have "subst_vars \<sigma> e = IRMutator_store e (map (IRMutate ?h) (IRMutator_slots e))"
      by (cases e) (auto simp: subst_vars_def IRMutate_default var_override_def default_kind_def)
    with 5 slots show ?thesis
      by (simp add: msz_store msz_default)
  qed
qed

lemma msz_zero_var:
  "msz fresh_sizes (ReplaceVarWithExpr a (IntImm 0) e) \<le> msz fresh_sizes e"
proof -
  have "subst_sizes (\<lambda>n. if n = a then Some (IntImm 0) else None) = fresh_sizes"
    by (auto simp: subst_sizes_def fun_eq_iff msz_default default_kind_def)
  with msz_subst_vars [of "\<lambda>n. if n = a then Some (IntImm 0) else None" e]
  show ?thesis by (simp add: ReplaceVarWithExpr_def)
qed

lemma msz_zero_vars:
  "msz fresh_sizes (fold (\<lambda>a. ReplaceVarWithExpr a (IntImm 0)) as e) \<le> msz fresh_sizes e"
proof (induction as arbitrary: e)
  case Nil
  show ?case by simp
next
  case (Cons a as)
  have "msz fresh_sizes (fold (\<lambda>a. ReplaceVarWithExpr a (IntImm 0)) as (ReplaceVarWithExpr a (IntImm 0) e))
      \<le> msz fresh_sizes (ReplaceVarWithExpr a (IntImm 0) e)"
    by (rule Cons.IH)
  also have "\<dots> \<le> msz fresh_sizes e" by (rule msz_zero_var)
  finally show ?case by simp
qed

definition mszl :: "Expr list \<Rightarrow> nat" where
  "mszl es = sum_list (map (\<lambda>c. Suc (msz fresh_sizes c)) es)"

lemma mszl_compute_at_zero:
  "compute_at_zero sg indices = Inr indices' \<Longrightarrow> mszl indices' \<le> mszl indices"
  unfolding mszl_def
  by (auto simp: compute_at_zero_def Let_def comp_def split: if_splits
      intro!: sum_list_Suc_mono msz_zero_vars)

lemma bind_sizes_subst_sizes:
  "bind_sizes ax (map (msz fresh_sizes) indices) = subst_sizes (map_of (zip ax indices))"
proof (rule ext, induction ax arbitrary: indices)
  case Nil
  show ?case by (simp add: bind_sizes_def subst_sizes_def)
next
  case (Cons a ax)
  show ?case
  proof (cases indices)
    case Nil
    then show ?thesis by (simp add: bind_sizes_def subst_sizes_def)
  next
    case (Cons i rest)
    with Cons.IH [of rest x] show ?thesis
      by (simp add: bind_sizes_def subst_sizes_def)
  qed
qed

lemma msz_inline_expanded:
  assumes "as_tensor t = Some (n, bf, ax, body)" and "inline_expanded ax body indices = Inr e1"
  shows "msz fresh_sizes e1 < msz fresh_sizes (Load t indices)"
proof -
  from assms(2) obtain b where b: "body = Some b" "e1 = subst_vars (map_of (zip ax indices)) b"
    by (auto simp: inline_expanded_def split: option.splits)
  have "msz fresh_sizes e1 \<le> msz (bind_sizes ax (map (msz fresh_sizes) indices)) b"
    using msz_subst_vars [of "map_of (zip ax indices)" b] b
    by (simp add: bind_sizes_subst_sizes)
  with assms(1) b show ?thesis by (simp add: msz_Load)
qed

lemma Visit_term_tensor: "msz fresh_sizes t < msz fresh_sizes (Load t indices)"
  by (simp add: msz_Load)

lemma Visit_term_indices: "2 * mszl indices < Suc (2 * msz fresh_sizes (Load t indices))"
  by (simp add: msz_Load mszl_def)

lemma Visit_term_zeroed:
  "compute_at_zero sg indices = Inr indices0 \<Longrightarrow>
   2 * mszl indices0 < Suc (2 * msz fresh_sizes (Load t indices))"
  using mszl_compute_at_zero [of sg indices indices0] Visit_term_indices [of indices t]
  by simp

lemma Visit_term_expanded:
  "as_tensor t = Some (n, bf, ax, body) \<Longrightarrow> inline_expanded ax body indices = Inr e1 \<Longrightarrow>
   msz fresh_sizes e1 < msz fresh_sizes (Load t indices)"
  by (rule msz_inline_expanded)

lemma Visit_term_Alloc_slots:
  "2 * mszl (exts @ defined_list c) < Suc (2 * msz fresh_sizes (Alloc exts c b))"
  by (simp add: msz_default default_kind_def mszl_def)

lemma Visit_term_Alloc_body: "msz fresh_sizes b0 < msz fresh_sizes (Alloc exts c (Some b0))"
  by (simp add: msz_default default_kind_def mszl_def defined_list_def)

lemma Visit_term_slots:
  "default_kind e \<Longrightarrow> 2 * mszl (IRMutator_slots e) < Suc (2 * msz fresh_sizes e)"
  by (simp add: msz_default mszl_def)

lemma Visit_term_Cons:
  "Suc (2 * msz fresh_sizes x) < 2 * mszl (x # xs)" "mszl xs < mszl (x # xs)"
  by (simp_all add: mszl_def)

section \<open>TensorInlineExpandMutator\<close>

text \<open>
  \<open>Visit tn M S st e\<close> is the dispatch \<^verbatim>\<open>IRMutator::Visit(expr, expr)\<close> of the mutator for the
  tensor named \<open>tn\<close>, with the tensor map \<open>M\<close>, the stages \<open>S\<close> and the flags \<open>st\<close>; it returns
  the flags and the rewritten expression, or the fatal error. The handlers of \<^verbatim>\<open>_Var_\<close>,
  \<^verbatim>\<open>_Tensor_\<close> and \<^verbatim>\<open>Load\<close> are those of \<^verbatim>\<open>compute_inline_expand.cc\<close> (lines 48-155); every
  other kind takes the default handler. In the \<^verbatim>\<open>Load\<close> handler the memory type is read
  twice from the same entry of the map (lines 75 and 128), which is \<open>mt\<close>.
\<close>

function (sequential)
  Visit :: "string \<Rightarrow> tensor_map \<Rightarrow> (string \<Rightarrow> Stage) \<Rightarrow> flags \<Rightarrow> Expr \<Rightarrow> error + flags \<times> Expr"
  and VisitList ::
    "string \<Rightarrow> tensor_map \<Rightarrow> (string \<Rightarrow> Stage) \<Rightarrow> flags \<Rightarrow> Expr list \<Rightarrow> error + flags \<times> Expr list"
where
  "Visit tn M S st (Var n bnds) =
     (if inline_code st \<and> temp_buffer st
         \<and> (Startswith n ''blockIdx'' \<or> (Startswith n ''threadIdx'' \<and> memory_local st))
      then Inr (st, IntImm 0)
      else Inr (st, Var n bnds))"
| "Visit tn M S st (Tensor n sh bf ax body) =
     (if inline_code st \<and> Endswith n ''_write_cache'' then
        (case memory_type_at M n of
           Inl err \<Rightarrow> Inl err
         | Inr mt \<Rightarrow>
             if mt = Heap then
               (case M (substr n 0 (size_t_sub (length n) 12)) of
                  None \<Rightarrow> Inl CheckFailed
                | Some t' \<Rightarrow> Inr (st, t'))
             else Inr (st, Tensor n sh bf ax body))
      else Inr (st, Tensor n sh bf ax body))"
| "Visit tn M S st (Load t indices) =
     (case as_tensor t of
        None \<Rightarrow>
          if inline_code st then Inl NullDeref
          else
            (case Visit tn M S st t of
               Inl err \<Rightarrow> Inl err
             | Inr (st1, t') \<Rightarrow>
                 (case VisitList tn M S st1 indices of
                    Inl err \<Rightarrow> Inl err
                  | Inr (st2, indices') \<Rightarrow> Inr (st2, Load t' indices')))
      | Some (n, bf, ax, body) \<Rightarrow>
          if n = tn then
            (case inline_expanded ax body indices of
               Inl err \<Rightarrow> Inl err
             | Inr e1 \<Rightarrow>
                 (case Visit tn M S (st\<lparr>inline_code := True\<rparr>) e1 of
                    Inl err \<Rightarrow> Inl err
                  | Inr (st1, e2) \<Rightarrow> Inr (st1\<lparr>inline_code := False\<rparr>, e2)))
          else if inline_code st \<and> bf \<noteq> None then
            (case memory_type_at M n of
               Inl err \<Rightarrow> Inl err
             | Inr mt \<Rightarrow>
                 if Endswith (fst (the bf)) ''_write_cache'' \<and> mt = Heap then
                   if M (substr (fst (the bf)) 1 (size_t_sub (length (fst (the bf))) 13)) \<noteq> None
                   then
                     (case Visit tn M S st t of
                        Inl err \<Rightarrow> Inl err
                      | Inr (st1, t') \<Rightarrow> Inr (st1, Load t' indices))
                   else
                     (case compute_at_zero (S n) indices of
                        Inl err \<Rightarrow> Inl err
                      | Inr indices0 \<Rightarrow> Inr (st, Load t indices0))
                 else if Endswith (fst (the bf)) ''_write_cache''
                     \<or> Endswith (fst (the bf)) ''_read_cache''
                     \<or> Endswith (fst (the bf)) ''_temp_buffer'' then
                   (case compute_at_zero (S n) indices of
                      Inl err \<Rightarrow> Inl err
                    | Inr indices0 \<Rightarrow>
                        (case Visit tn M S
                                (st\<lparr>temp_buffer := True,
                                    memory_local := (mt = GPULocal \<or> memory_local st)\<rparr>) t of
                           Inl err \<Rightarrow> Inl err
                         | Inr (st1, t') \<Rightarrow>
                             (case VisitList tn M S st1 indices0 of
                                Inl err \<Rightarrow> Inl err
                              | Inr (st2, indices') \<Rightarrow>
                                  Inr (st2\<lparr>temp_buffer := temp_buffer st,
                                           memory_local := memory_local st\<rparr>,
                                       Load t' indices'))))
                 else
                   (case Visit tn M S st t of
                      Inl err \<Rightarrow> Inl err
                    | Inr (st1, t') \<Rightarrow>
                        (case VisitList tn M S st1 indices of
                           Inl err \<Rightarrow> Inl err
                         | Inr (st2, indices') \<Rightarrow> Inr (st2, Load t' indices'))))
          else
            (case Visit tn M S st t of
               Inl err \<Rightarrow> Inl err
             | Inr (st1, t') \<Rightarrow>
                 (case VisitList tn M S st1 indices of
                    Inl err \<Rightarrow> Inl err
                  | Inr (st2, indices') \<Rightarrow> Inr (st2, Load t' indices'))))"
| "Visit tn M S st (Alloc exts c b) =
     (case VisitList tn M S st (exts @ defined_list c) of
        Inl err \<Rightarrow> Inl err
      | Inr (st1, cs) \<Rightarrow>
          (case b of
             None \<Rightarrow>
               Inr (st1, Alloc (take (length exts) cs)
                           (map_option (\<lambda>x. last cs) c) None)
           | Some b0 \<Rightarrow>
               (case Visit tn M S st1 b0 of
                  Inl err \<Rightarrow> Inl err
                | Inr (st2, b1) \<Rightarrow>
                    Inr (st2, Alloc (take (length exts) cs) (map_option (\<lambda>x. last cs) c)
                                (Some (if slot_overwritten tn b0 then b0 else b1))))))"
| "Visit tn M S st e =
     (case VisitList tn M S st (IRMutator_slots e) of
        Inl err \<Rightarrow> Inl err
      | Inr (st1, cs) \<Rightarrow> Inr (st1, IRMutator_store e cs))"
| "VisitList tn M S st [] = Inr (st, [])"
| "VisitList tn M S st (x # xs) =
     (case Visit tn M S st x of
        Inl err \<Rightarrow> Inl err
      | Inr (st1, x') \<Rightarrow>
          (case VisitList tn M S st1 xs of
             Inl err \<Rightarrow> Inl err
           | Inr (st2, xs') \<Rightarrow> Inr (st2, x' # xs')))"
  by pat_completeness auto
termination
  apply (relation "measure (\<lambda>x. case x of
            Inl (tn, M, S, st, e) \<Rightarrow> 2 * msz fresh_sizes e + 1
          | Inr (tn, M, S, st, es) \<Rightarrow> 2 * mszl es)")
  apply (simp_all add: Visit_term_tensor Visit_term_indices Visit_term_zeroed
       Visit_term_Alloc_slots Visit_term_Alloc_body Visit_term_slots Visit_term_Cons
       default_kind_def del: IRMutator_slots.simps)
  apply (auto intro: Visit_term_expanded)
  done

subsection \<open>The branches of the Load handler\<close>

definition Visit_plain ::
  "string \<Rightarrow> tensor_map \<Rightarrow> (string \<Rightarrow> Stage) \<Rightarrow> flags \<Rightarrow> Expr \<Rightarrow> Expr list \<Rightarrow> error + flags \<times> Expr" where
  "Visit_plain tn M S st t indices =
     (case Visit tn M S st t of
        Inl err \<Rightarrow> Inl err
      | Inr (st1, t') \<Rightarrow>
          (case VisitList tn M S st1 indices of
             Inl err \<Rightarrow> Inl err
           | Inr (st2, indices') \<Rightarrow> Inr (st2, Load t' indices')))"

lemma Load_cases [case_names null untyped expand outside lookup_error redirect zero_only temp other]:
  obtains
    (null) "as_tensor t = None" "inline_code st"
  | (untyped) "as_tensor t = None" "\<not> inline_code st"
  | (expand) bf ax body where "as_tensor t = Some (tn, bf, ax, body)"
  | (outside) n bf ax body where "as_tensor t = Some (n, bf, ax, body)" "n \<noteq> tn"
      "\<not> inline_code st \<or> bf = None"
  | (lookup_error) n bn bm ax body err where "as_tensor t = Some (n, Some (bn, bm), ax, body)"
      "n \<noteq> tn" "inline_code st" "memory_type_at M n = Inl err"
  | (redirect) n bn bm ax body where "as_tensor t = Some (n, Some (bn, bm), ax, body)"
      "n \<noteq> tn" "inline_code st" "memory_type_at M n = Inr Heap" "Endswith bn ''_write_cache''"
      "M (substr bn 1 (size_t_sub (length bn) 13)) \<noteq> None"
  | (zero_only) n bn bm ax body where "as_tensor t = Some (n, Some (bn, bm), ax, body)"
      "n \<noteq> tn" "inline_code st" "memory_type_at M n = Inr Heap" "Endswith bn ''_write_cache''"
      "M (substr bn 1 (size_t_sub (length bn) 13)) = None"
  | (temp) n bn bm ax body mt where "as_tensor t = Some (n, Some (bn, bm), ax, body)"
      "n \<noteq> tn" "inline_code st" "memory_type_at M n = Inr mt"
      "\<not> (Endswith bn ''_write_cache'' \<and> mt = Heap)"
      "Endswith bn ''_write_cache'' \<or> Endswith bn ''_read_cache'' \<or> Endswith bn ''_temp_buffer''"
  | (other) n bn bm ax body mt where "as_tensor t = Some (n, Some (bn, bm), ax, body)"
      "n \<noteq> tn" "inline_code st" "memory_type_at M n = Inr mt"
      "\<not> Endswith bn ''_write_cache''" "\<not> Endswith bn ''_read_cache''"
      "\<not> Endswith bn ''_temp_buffer''"
proof (cases "as_tensor t")
  case None
  then show ?thesis using null untyped by blast
next
  case (Some q)
  then obtain n bf ax body where q: "as_tensor t = Some (n, bf, ax, body)" by (cases q) auto
  show ?thesis
  proof (cases "n = tn")
    case True
    with q expand show ?thesis by blast
  next
    case False
    show ?thesis
    proof (cases "\<not> inline_code st \<or> bf = None")
      case True
      with q False outside show ?thesis by blast
    next
      case ic: False
      then obtain bn bm where bf: "bf = Some (bn, bm)" by (cases bf) auto
      show ?thesis
      proof (cases "memory_type_at M n")
        case (Inl err)
        with q False ic bf lookup_error show ?thesis by blast
      next
        case (Inr mt)
        show ?thesis
          using q False ic bf Inr redirect [of n bn bm ax body] zero_only [of n bn bm ax body]
            temp [of n bn bm ax body mt] other [of n bn bm ax body mt]
          by blast
      qed
    qed
  qed
qed

lemma Visit_Load_null:
  "as_tensor t = None \<Longrightarrow> inline_code st \<Longrightarrow> Visit tn M S st (Load t indices) = Inl NullDeref"
  by simp

lemma Visit_Load_untyped:
  "as_tensor t = None \<Longrightarrow> \<not> inline_code st \<Longrightarrow>
   Visit tn M S st (Load t indices) = Visit_plain tn M S st t indices"
  by (simp add: Visit_plain_def)

lemma Visit_Load_expand:
  "as_tensor t = Some (tn, bf, ax, body) \<Longrightarrow>
   Visit tn M S st (Load t indices) =
     (case inline_expanded ax body indices of
        Inl err \<Rightarrow> Inl err
      | Inr e1 \<Rightarrow>
          (case Visit tn M S (st\<lparr>inline_code := True\<rparr>) e1 of
             Inl err \<Rightarrow> Inl err
           | Inr (st1, e2) \<Rightarrow> Inr (st1\<lparr>inline_code := False\<rparr>, e2)))"
  by simp

lemma Visit_Load_outside:
  "as_tensor t = Some (n, bf, ax, body) \<Longrightarrow> n \<noteq> tn \<Longrightarrow> \<not> inline_code st \<or> bf = None \<Longrightarrow>
   Visit tn M S st (Load t indices) = Visit_plain tn M S st t indices"
  by (auto simp: Visit_plain_def)

lemma Visit_Load_lookup_error:
  "as_tensor t = Some (n, Some (bn, bm), ax, body) \<Longrightarrow> n \<noteq> tn \<Longrightarrow> inline_code st \<Longrightarrow>
   memory_type_at M n = Inl err \<Longrightarrow> Visit tn M S st (Load t indices) = Inl err"
  by simp

lemma Visit_Load_redirect:
  "as_tensor t = Some (n, Some (bn, bm), ax, body) \<Longrightarrow> n \<noteq> tn \<Longrightarrow> inline_code st \<Longrightarrow>
   memory_type_at M n = Inr Heap \<Longrightarrow> Endswith bn ''_write_cache'' \<Longrightarrow>
   M (substr bn 1 (size_t_sub (length bn) 13)) \<noteq> None \<Longrightarrow>
   Visit tn M S st (Load t indices) =
     (case Visit tn M S st t of
        Inl err \<Rightarrow> Inl err
      | Inr (st1, t') \<Rightarrow> Inr (st1, Load t' indices))"
  by auto

lemma Visit_Load_zero_only:
  "as_tensor t = Some (n, Some (bn, bm), ax, body) \<Longrightarrow> n \<noteq> tn \<Longrightarrow> inline_code st \<Longrightarrow>
   memory_type_at M n = Inr Heap \<Longrightarrow> Endswith bn ''_write_cache'' \<Longrightarrow>
   M (substr bn 1 (size_t_sub (length bn) 13)) = None \<Longrightarrow>
   Visit tn M S st (Load t indices) =
     (case compute_at_zero (S n) indices of
        Inl err \<Rightarrow> Inl err
      | Inr indices0 \<Rightarrow> Inr (st, Load t indices0))"
  by simp

lemma Visit_Load_temp:
  assumes "as_tensor t = Some (n, Some (bn, bm), ax, body)" and "n \<noteq> tn" and "inline_code st"
    and "memory_type_at M n = Inr mt"
    and "\<not> (Endswith bn ''_write_cache'' \<and> mt = Heap)"
    and "Endswith bn ''_write_cache'' \<or> Endswith bn ''_read_cache'' \<or> Endswith bn ''_temp_buffer''"
  shows "Visit tn M S st (Load t indices) =
     (case compute_at_zero (S n) indices of
        Inl err \<Rightarrow> Inl err
      | Inr indices0 \<Rightarrow>
          (case Visit tn M S
                  (st\<lparr>temp_buffer := True, memory_local := (mt = GPULocal \<or> memory_local st)\<rparr>) t of
             Inl err \<Rightarrow> Inl err
           | Inr (st1, t') \<Rightarrow>
               (case VisitList tn M S st1 indices0 of
                  Inl err \<Rightarrow> Inl err
                | Inr (st2, indices') \<Rightarrow>
                    Inr (st2\<lparr>temp_buffer := temp_buffer st, memory_local := memory_local st\<rparr>,
                         Load t' indices'))))"
  using assms(1-4) by (simp add: assms(5,6))

lemma Visit_Load_other:
  assumes "as_tensor t = Some (n, Some (bn, bm), ax, body)" and "n \<noteq> tn" and "inline_code st"
    and "memory_type_at M n = Inr mt"
    and "\<not> Endswith bn ''_write_cache''" and "\<not> Endswith bn ''_read_cache''"
    and "\<not> Endswith bn ''_temp_buffer''"
  shows "Visit tn M S st (Load t indices) = Visit_plain tn M S st t indices"
  using assms by (simp add: Visit_plain_def)

declare Visit.simps(3) [simp del]

subsection \<open>The flags of the temporary buffer\<close>

definition keeps :: "flags \<Rightarrow> error + flags \<times> 'a \<Rightarrow> bool" where
  "keeps st r = (case r of Inl err \<Rightarrow> True
     | Inr (st', x) \<Rightarrow> temp_buffer st' = temp_buffer st \<and> memory_local st' = memory_local st)"

lemma keeps_Inl [simp]: "keeps st (Inl err)"
  by (simp add: keeps_def)

lemma keeps_Inr [simp]:
  "keeps st (Inr (st', x)) = (temp_buffer st' = temp_buffer st \<and> memory_local st' = memory_local st)"
  by (simp add: keeps_def)

lemma keeps_seq:
  assumes "keeps st r"
    and "\<And>st1 x. r = Inr (st1, x) \<Longrightarrow> keeps st1 (f st1 x)"
  shows "keeps st (case r of Inl err \<Rightarrow> Inl err | Inr (st1, x) \<Rightarrow> f st1 x)"
proof (cases r)
  case (Inl a)
  then show ?thesis by simp
next
  case (Inr b)
  obtain st1 x where b: "b = (st1, x)" by (cases b)
  from assms(2) [of st1 x] assms(1) Inr b show ?thesis
    by (cases "f st1 x") (auto simp: keeps_def)
qed

lemma keeps_plain:
  assumes "keeps st (Visit tn M S st t)"
    and "\<And>st1 t'. Visit tn M S st t = Inr (st1, t') \<Longrightarrow> keeps st1 (VisitList tn M S st1 indices)"
  shows "keeps st (Visit_plain tn M S st t indices)"
  unfolding Visit_plain_def using assms(1)
proof (rule keeps_seq)
  fix st1 t' assume v: "Visit tn M S st t = Inr (st1, t')"
  show "keeps st1 (case VisitList tn M S st1 indices of
                    Inl err \<Rightarrow> Inl err
                  | Inr (st2, indices') \<Rightarrow> Inr (st2, Load t' indices'))"
    using assms(2) [OF v] by (rule keeps_seq) simp
qed

lemma Visit_keeps:
  "keeps st (Visit tn M S st e)"
  "keeps st (VisitList tn M S st es)"
proof (induction tn M S st e and tn M S st es rule: Visit_VisitList.induct)
  case (1 tn M S st n bnds)
  show ?case by simp
next
  case (2 tn M S st n sh bf ax body)
  show ?case by (simp split: sum.splits option.splits)
next
  case (3 tn M S st t indices)
  show ?case
  proof (cases rule: Load_cases [where t = t and st = st and tn = tn and M = M])
    case null
    then show ?thesis by (simp add: Visit_Load_null)
  next
    case untyped
    then have "keeps st (Visit_plain tn M S st t indices)"
      by (intro keeps_plain "3.IH") auto
    with untyped show ?thesis by (simp add: Visit_Load_untyped)
  next
    case (expand bf ax body)
    show ?thesis
    proof (cases "inline_expanded ax body indices")
      case (Inl err)
      with expand show ?thesis by (simp add: Visit_Load_expand)
    next
      case (Inr e1)
      have "keeps (st\<lparr>inline_code := True\<rparr>) (Visit tn M S (st\<lparr>inline_code := True\<rparr>) e1)"
        using expand Inr by (intro "3.IH") auto
      with expand Inr show ?thesis
        by (auto simp: Visit_Load_expand keeps_def split: sum.splits)
    qed
  next
    case (outside n bf ax body)
    then have "keeps st (Visit_plain tn M S st t indices)"
      by (intro keeps_plain "3.IH") auto
    with outside show ?thesis by (simp add: Visit_Load_outside)
  next
    case (lookup_error n bn bm ax body err)
    then show ?thesis by (simp add: Visit_Load_lookup_error)
  next
    case (redirect n bn bm ax body)
    then have "keeps st (Visit tn M S st t)"
      by (intro "3.IH") auto
    with redirect show ?thesis
      by (auto simp: Visit_Load_redirect keeps_def split: sum.splits)
  next
    case (zero_only n bn bm ax body)
    then show ?thesis by (auto simp: Visit_Load_zero_only split: sum.splits)
  next
    case (temp n bn bm ax body mt)
    then show ?thesis
      by (simp add: Visit_Load_temp keeps_def split: sum.splits prod.splits)
  next
    case (other n bn bm ax body mt)
    then have "keeps st (Visit_plain tn M S st t indices)"
      by (intro keeps_plain "3.IH") auto
    with other show ?thesis by (simp add: Visit_Load_other)
  qed
next
  case (4 tn M S st exts c b)
  have a: "keeps st (VisitList tn M S st (exts @ defined_list c))" by (rule "4.IH")
  show ?case
  proof (cases "VisitList tn M S st (exts @ defined_list c)")
    case (Inl err)
    then show ?thesis by simp
  next
    case (Inr r)
    obtain st1 cs where r: "r = (st1, cs)" by (cases r)
    show ?thesis
    proof (cases b)
      case None
      with a Inr r show ?thesis by simp
    next
      case (Some b0)
      have "keeps st1 (Visit tn M S st1 b0)"
        using Inr r Some by (intro "4.IH") auto
      with a Inr r Some show ?thesis by (auto simp: keeps_def split: sum.splits)
    qed
  qed
next
  case (7 tn M S st x xs)
  show ?case
    unfolding VisitList.simps using "7.IH"(1)
  proof (rule keeps_seq)
    fix st1 x' assume v: "Visit tn M S st x = Inr (st1, x')"
    have "keeps st1 (VisitList tn M S st1 xs)"
      using v by (intro "7.IH") auto
    then show "keeps st1 (case VisitList tn M S st1 xs of Inl err \<Rightarrow> Inl err
             | Inr (st2, xs') \<Rightarrow> Inr (st2, x' # xs'))"
      by (rule keeps_seq) simp
  qed
qed (simp_all, (rule keeps_seq, assumption, simp)+)

section \<open>ComputeInlineExpand\<close>

text \<open>
  Modelled from the spec: the children that a node owns, by the data model of the
  specification: a \<^verbatim>\<open>PolyFor\<close> owns its init, condition, increment and body, a \<^verbatim>\<open>Load\<close> its
  tensor and its indices, and every other kind the children that its default handler
  visits.
\<close>

definition owned :: "Expr \<Rightarrow> Expr list" where
  "owned e =
     (case e of
        PolyFor v init cond inc body \<Rightarrow> [init, cond, inc, body]
      | Load t indices \<Rightarrow> t # indices
      | _ \<Rightarrow> IRMutator_slots e)"

lemma owned_size: "c \<in> set (owned e) \<Longrightarrow> size c < size e"
  by (cases e) (auto simp: owned_def defined_list_def less_Suc_eq_le split: option.splits
      dest: size_list_mem)

text \<open>
  Modelled from the spec: the nodes of an expression tree, the root first.
\<close>

function nodes :: "Expr \<Rightarrow> Expr list" where
  "nodes e = e # concat (map nodes (owned e))"
  by pat_completeness auto
termination
  by (relation "measure size") (auto dest: owned_size)

declare nodes.simps [simp del]

definition load_tensor :: "Expr \<Rightarrow> Expr list" where
  "load_tensor e = (case e of Load t indices \<Rightarrow> [t] | _ \<Rightarrow> [])"

text \<open>
  Modelled from the spec: \<^verbatim>\<open>ir::CollectIRNodes\<close> (\<^verbatim>\<open>cinn/ir/collect_ir_nodes.cc\<close> is not among the
  sources) scans the expression tree and returns, as a set, the nodes that the teller
  accepts.
\<close>

definition CollectIRNodes :: "(Expr \<Rightarrow> bool) \<Rightarrow> Expr \<Rightarrow> Expr list" where
  "CollectIRNodes teller e = remdups (filter teller (nodes e))"

text \<open>
  Modelled from the spec: \<^verbatim>\<open>ir::CollectLoadTensors\<close> (\<^verbatim>\<open>cinn/ir/collect_ir_nodes.cc\<close> is not among
  the sources) scans the expression tree and returns, as a set, the tensors of the
  \<^verbatim>\<open>Load\<close> nodes that the teller accepts: the tensors that are still referenced.
\<close>

definition CollectLoadTensors :: "(Expr \<Rightarrow> bool) \<Rightarrow> Expr \<Rightarrow> Expr list" where
  "CollectLoadTensors teller e = remdups (filter teller (concat (map load_tensor (nodes e))))"

text \<open>
  The teller of \<^verbatim>\<open>ComputeInlineExpand\<close> accepts the tensors whose stage is inlined. The loop
  runs one fresh mutator per collected tensor over the whole expression and scans again;
  it may run forever, so it returns an option: \<open>None\<close> when it does not return.
\<close>

definition inline_teller :: "(string \<Rightarrow> Stage) \<Rightarrow> Expr \<Rightarrow> bool" where
  "inline_teller S x =
     (case as_tensor x of None \<Rightarrow> False | Some (n, bf, ax, body) \<Rightarrow> inlined (S n))"

definition fresh_flags :: flags where
  "fresh_flags = \<lparr>inline_code = False, temp_buffer = False, memory_local = False\<rparr>"

fun expand_each :: "tensor_map \<Rightarrow> (string \<Rightarrow> Stage) \<Rightarrow> Expr list \<Rightarrow> Expr \<Rightarrow> error + Expr" where
  "expand_each M S [] e = Inr e"
| "expand_each M S (t # ts) e =
     (case as_tensor t of
        None \<Rightarrow> Inl NullDeref
      | Some (n, bf, ax, body) \<Rightarrow>
          (case Visit n M S fresh_flags e of
             Inl err \<Rightarrow> Inl err
           | Inr (st, e') \<Rightarrow> expand_each M S ts e'))"

partial_function (option) expand_while ::
  "tensor_map \<Rightarrow> (string \<Rightarrow> Stage) \<Rightarrow> Expr list \<Rightarrow> Expr \<Rightarrow> (error + Expr) option" where
  "expand_while M S inline_tensors e =
     (if inline_tensors = [] then Some (Inr e)
      else
        (case expand_each M S inline_tensors e of
           Inl err \<Rightarrow> Some (Inl err)
         | Inr e' \<Rightarrow> expand_while M S (CollectLoadTensors (inline_teller S) e') e'))"

declare expand_while.simps [code]

definition ComputeInlineExpand ::
  "tensor_map \<Rightarrow> (string \<Rightarrow> Stage) \<Rightarrow> Expr \<Rightarrow> (error + Expr) option" where
  "ComputeInlineExpand M S e = expand_while M S (CollectIRNodes (inline_teller S) e) e"

subsection \<open>The nodes of a tree\<close>

lemma nodes_self: "e \<in> set (nodes e)"
  by (subst nodes.simps) simp

lemma nodes_owned: "c \<in> set (owned e) \<Longrightarrow> set (nodes c) \<subseteq> set (nodes e)"
  by (subst (2) nodes.simps) auto


lemma slots_owned: "set (IRMutator_slots e) \<subseteq> set (owned e)"
  by (cases e) (auto simp: owned_def)


text \<open>
  \<open>no_inlined_load S e\<close>: no load in the tree \<open>e\<close> references a tensor whose stage is
  inlined. \<open>expansion_loads t\<close> are the tensors that the expansion of \<open>t\<close> loads (the tensors
  that \<open>t\<close> depends on).
\<close>

definition no_inlined_load :: "(string \<Rightarrow> Stage) \<Rightarrow> Expr \<Rightarrow> bool" where
  "no_inlined_load S e =
     (\<forall>x \<in> set (nodes e). \<forall>t indices. x = Load t indices \<longrightarrow> \<not> inline_teller S t)"

definition expansion_loads :: "Expr \<Rightarrow> Expr list" where
  "expansion_loads t =
     (case as_tensor t of
        Some (n, bf, ax, Some body) \<Rightarrow> concat (map load_tensor (nodes body))
      | _ \<Rightarrow> [])"

lemma CollectLoadTensors_empty:
  "CollectLoadTensors (inline_teller S) e = [] \<longleftrightarrow> no_inlined_load S e"
proof
  assume c: "CollectLoadTensors (inline_teller S) e = []"
  show "no_inlined_load S e"
    unfolding no_inlined_load_def
  proof (intro ballI allI impI)
    fix x t indices assume x: "x \<in> set (nodes e)" "x = Load t indices"
    then have "t \<in> set (concat (map load_tensor (nodes e)))"
      by (auto simp: load_tensor_def intro!: bexI [of _ x])
    moreover from c have "filter (inline_teller S) (concat (map load_tensor (nodes e))) = []"
      by (simp add: CollectLoadTensors_def)
    ultimately show "\<not> inline_teller S t" by (auto simp: filter_empty_conv)
  qed
next
  assume "no_inlined_load S e"
  then have "filter (inline_teller S) (concat (map load_tensor (nodes e))) = []"
    by (auto simp: filter_empty_conv no_inlined_load_def load_tensor_def split: Expr.splits)
  then show "CollectLoadTensors (inline_teller S) e = []"
    by (simp add: CollectLoadTensors_def)
qed


section \<open>Device axis extents\<close>

text \<open>
  A device axis is a block or a thread axis with its offset; for the binding pass a stage
  is given by the loops it binds to device axes, each with its extent.
\<close>

datatype ForType = GPUBlock | GPUThread

type_synonym axis = "ForType \<times> nat"

type_synonym axis_bindings = "(axis \<times> nat) list"

text \<open>
  Modelled from the spec: one binding of a loop to an axis raises the bound of the axis to
  the extent of the loop, if it is larger.
\<close>

definition record_extent :: "axis \<times> nat \<Rightarrow> (axis \<rightharpoonup> nat) \<Rightarrow> (axis \<rightharpoonup> nat)" where
  "record_extent b info =
     (case info (fst b) of
        None \<Rightarrow> info(fst b \<mapsto> snd b)
      | Some m \<Rightarrow> info(fst b \<mapsto> max (snd b) m))"

text \<open>
  Modelled from the spec: \<^verbatim>\<open>GatherAxisInfoFromStages\<close> is declared in the header of the binding
  pass and its definition is not among the sources. It collects, per axis, the maximum
  extent over all stages of the group that use the axis, one binding after the other; an
  axis that no stage binds has no bound.
\<close>

definition GatherAxisInfoFromStages :: "axis_bindings list \<Rightarrow> (axis \<rightharpoonup> nat)" where
  "GatherAxisInfoFromStages stage_group = fold (fold record_extent) stage_group Map.empty"

text \<open>
  \<open>extents_on a stage_group\<close> are the extents of all loops that the stages bind to \<open>a\<close>.
\<close>

definition extents_on :: "axis \<Rightarrow> axis_bindings list \<Rightarrow> nat list" where
  "extents_on a stage_group = map snd (filter (\<lambda>b. fst b = a) (concat stage_group))"

lemma Max_insert_max:
  "finite A \<Longrightarrow> Max (insert (max x y) A) = Max (insert y (insert x A))"
proof (cases "A = {}")
  case True
  then show ?thesis by (simp add: max.commute)
next
  case False
  assume "finite A"
  with False show ?thesis by (simp add: ac_simps)
qed

lemma fold_record_extent:
  "fold record_extent bs info a =
     (case info a of
        None \<Rightarrow>
          (if map snd (filter (\<lambda>b. fst b = a) bs) = [] then None
           else Some (Max (set (map snd (filter (\<lambda>b. fst b = a) bs)))))
      | Some m \<Rightarrow> Some (Max (insert m (set (map snd (filter (\<lambda>b. fst b = a) bs))))))"
proof (induction bs arbitrary: info)
  case Nil
  show ?case by (simp split: option.splits)
next
  case (Cons b bs)
  show ?case
  proof (cases "fst b = a")
    case False
    then have "record_extent b info a = info a"
      by (simp add: record_extent_def split: option.splits)
    with False Cons.IH [of "record_extent b info"] show ?thesis
      by (simp split: option.splits)
  next
    case True
    let ?xs = "set (map snd (filter (\<lambda>b. fst b = a) bs))"
    have fin: "finite ?xs" by simp
    show ?thesis
    proof (cases "info a")
      case None
      with True have "record_extent b info a = Some (snd b)"
        by (simp add: record_extent_def)
      with True None Cons.IH [of "record_extent b info"] show ?thesis by simp
    next
      case (Some m)
      with True have r: "record_extent b info a = Some (max (snd b) m)"
        by (simp add: record_extent_def)
      have "Max (insert (max (snd b) m) ?xs) = Max (insert m (insert (snd b) ?xs))"
        using fin by (rule Max_insert_max)
      then have "Some (Max (insert (max (snd b) m) ?xs))
          = Some (Max (insert m (set (map snd (filter (\<lambda>b. fst b = a) (b # bs))))))"
        using True by simp
      moreover have "fold record_extent (b # bs) info a
          = Some (Max (insert (max (snd b) m) ?xs))"
        using r Cons.IH [of "record_extent b info"] by simp
      ultimately show ?thesis using Some by simp
    qed
  qed
qed

lemma fold_fold_concat: "fold (fold f) xss s = fold f (concat xss) s"
  by (induction xss arbitrary: s) simp_all

section \<open>Expressions the mutator leaves alone\<close>

text \<open>
  \<open>quiet tn ic e\<close>: along the traversal of \<open>e\<close>, no load names the tensor \<open>tn\<close>, and, when
  \<open>ic\<close> (inside inlined code), no load has a tensor with a defined buffer and no tensor is
  named as a write cache. On such an expression the mutator is the identity, as long as
  it is not on a temporary buffer inside inlined code.
\<close>

function (sequential) quiet :: "string \<Rightarrow> bool \<Rightarrow> Expr \<Rightarrow> bool" where
  "quiet tn ic (Var n bnds) = True"
| "quiet tn ic (Tensor n sh bf ax body) = (\<not> (ic \<and> Endswith n ''_write_cache''))"
| "quiet tn ic (Load t indices) =
     ((case as_tensor t of
         None \<Rightarrow> \<not> ic
       | Some (n, bf, ax, body) \<Rightarrow> n \<noteq> tn \<and> \<not> (ic \<and> bf \<noteq> None))
      \<and> quiet tn ic t \<and> list_all (quiet tn ic) indices)"
| "quiet tn ic e = list_all (quiet tn ic) (IRMutator_slots e)"
  by pat_completeness auto
termination
  by (relation "measure (\<lambda>(tn, ic, e). size e)")
    (auto simp: less_Suc_eq_le defined_list_def dest: size_list_mem split: option.splits)

lemma quiet_Visit:
  "quiet tn (inline_code st) e \<Longrightarrow> \<not> (inline_code st \<and> temp_buffer st) \<Longrightarrow>
   Visit tn M S st e = Inr (st, e)"
  "list_all (quiet tn (inline_code st)) es \<Longrightarrow> \<not> (inline_code st \<and> temp_buffer st) \<Longrightarrow>
   VisitList tn M S st es = Inr (st, es)"
proof (induction tn M S st e and tn M S st es rule: Visit_VisitList.induct)
  case (1 tn M S st n bnds)
  then show ?case by auto
next
  case (2 tn M S st n sh bf ax body)
  then show ?case by auto
next
  case (3 tn M S st t indices)
  have qt: "quiet tn (inline_code st) t" and qi: "list_all (quiet tn (inline_code st)) indices"
    using "3.prems" by auto
  show ?case
  proof (cases "as_tensor t")
    case None
    with "3.prems" have ic: "\<not> inline_code st" by simp
    have t: "Visit tn M S st t = Inr (st, t)"
      using None ic qt "3.prems"(2) by (intro "3.IH") auto
    have "VisitList tn M S st indices = Inr (st, indices)"
      using None ic qi t "3.prems"(2) by (intro "3.IH") auto
    with None ic t show ?thesis by (simp add: Visit_Load_untyped Visit_plain_def)
  next
    case (Some q)
    then obtain n bf ax body where q: "as_tensor t = Some (n, bf, ax, body)" by (cases q) auto
    with "3.prems" have n: "n \<noteq> tn" and bf: "\<not> inline_code st \<or> bf = None"
      by (cases bf; auto)+
    have t: "Visit tn M S st t = Inr (st, t)"
      using q n bf qt "3.prems"(2) by (intro "3.IH") auto
    have "VisitList tn M S st indices = Inr (st, indices)"
      using q n bf qi t "3.prems"(2) by (intro "3.IH") auto
    with q n bf t show ?thesis by (simp add: Visit_Load_outside Visit_plain_def)
  qed
next
  case (4 tn M S st exts c b)
  have q: "list_all (quiet tn (inline_code st)) (exts @ defined_list c)"
    and qb: "\<And>b0. b = Some b0 \<Longrightarrow> quiet tn (inline_code st) b0"
    using "4.prems" by (auto simp: defined_list_def)
  have l: "VisitList tn M S st (exts @ defined_list c) = Inr (st, exts @ defined_list c)"
    using q "4.prems"(2) by (intro "4.IH")
  show ?case
  proof (cases b)
    case None
    with l show ?thesis by (cases c) (auto simp: defined_list_def)
  next
    case (Some b0)
    have "Visit tn M S st b0 = Inr (st, b0)"
      using l Some qb "4.prems"(2) by (intro "4.IH") auto
    with l Some show ?thesis by (cases c) (auto simp: defined_list_def)
  qed
next
  case (6 tn M S st)
  show ?case by simp
next
  case (7 tn M S st x xs)
  have x: "Visit tn M S st x = Inr (st, x)"
    using "7.prems" by (intro "7.IH") auto
  have "VisitList tn M S st xs = Inr (st, xs)"
    using x "7.prems" by (intro "7.IH") auto
  with x show ?case by simp
qed (simp_all del: IRMutator_slots.simps IRMutator_store.simps add: store_slots)

definition loads_avoid :: "string \<Rightarrow> Expr \<Rightarrow> bool" where
  "loads_avoid n e =
     (\<forall>x \<in> set (nodes e). \<forall>t indices. x = Load t indices \<longrightarrow>
        (case as_tensor t of None \<Rightarrow> True | Some (n', bf, ax, body) \<Rightarrow> n' \<noteq> n))"

lemma loads_avoid_owned: "loads_avoid n e \<Longrightarrow> c \<in> set (owned e) \<Longrightarrow> loads_avoid n c"
  using nodes_owned [of c e] unfolding loads_avoid_def by blast

lemma quiet_outside:
  "quiet tn False e =
     (case e of
        Load t indices \<Rightarrow>
          (case as_tensor t of None \<Rightarrow> True | Some (n, bf, ax, body) \<Rightarrow> n \<noteq> tn)
          \<and> quiet tn False t \<and> list_all (quiet tn False) indices
      | Var n bnds \<Rightarrow> True
      | Tensor n sh bf ax body \<Rightarrow> True
      | _ \<Rightarrow> list_all (quiet tn False) (IRMutator_slots e))"
  by (cases e) (simp_all del: IRMutator_slots.simps split: option.splits)

lemma loads_avoid_quiet: "loads_avoid n e \<Longrightarrow> quiet n False e"
proof (induction e rule: measure_induct_rule [of size])
  case (less e)
  have slots: "list_all (quiet n False) (IRMutator_slots e)"
    unfolding list_all_iff
  proof
    fix c assume c: "c \<in> set (IRMutator_slots e)"
    then have "c \<in> set (owned e)" using slots_owned by blast
    from loads_avoid_owned [OF less.prems this] slots_size [OF c] show "quiet n False c"
      by (rule less.IH [rotated])
  qed
  consider (load) t indices where "e = Load t indices"
    | (other) "\<And>t indices. e \<noteq> Load t indices"
    by (cases e) auto
  then show ?case
  proof cases
    case load
    have "t \<in> set (owned e)" using load by (simp add: owned_def)
    then have "loads_avoid n t" by (rule loads_avoid_owned [OF less.prems])
    moreover have "size t < size e" using load by simp
    ultimately have t: "quiet n False t" by (rule less.IH [rotated])
    have "Load t indices \<in> set (nodes e)" using load nodes_self [of e] by simp
    then have "case as_tensor t of None \<Rightarrow> True | Some (n', bf, ax, body) \<Rightarrow> n' \<noteq> n"
      using less.prems unfolding loads_avoid_def by blast
    moreover have "list_all (quiet n False) indices" using slots load by simp
    ultimately show ?thesis using t load by (subst quiet_outside) simp
  next
    case other
    show ?thesis
      using slots other by (subst quiet_outside) (auto simp del: IRMutator_slots.simps split: Expr.splits)
  qed
qed

lemma inlined_loads_avoid:
  assumes "no_inlined_load S e" and "as_tensor t = Some (n, bf, ax, body)" and "inline_teller S t"
  shows "loads_avoid n e"
  unfolding loads_avoid_def
proof (intro ballI allI impI)
  fix x t' indices assume x: "x \<in> set (nodes e)" "x = Load t' indices"
  with assms(1) have nt: "\<not> inline_teller S t'" by (auto simp: no_inlined_load_def)
  from assms(2,3) have "inlined (S n)" by (simp add: inline_teller_def)
  with nt show "case as_tensor t' of None \<Rightarrow> True | Some (n', bf, ax, body) \<Rightarrow> n' \<noteq> n"
    by (auto simp: inline_teller_def split: option.splits)
qed

lemma expand_each_unchanged:
  "no_inlined_load S e \<Longrightarrow> \<forall>t \<in> set ts. inline_teller S t \<Longrightarrow> expand_each M S ts e = Inr e"
proof (induction ts)
  case Nil
  show ?case by simp
next
  case (Cons t ts)
  from Cons.prems(2) have it: "inline_teller S t" by simp
  then obtain n bf ax body where t: "as_tensor t = Some (n, bf, ax, body)"
    by (auto simp: inline_teller_def split: option.splits)
  have "quiet n (inline_code fresh_flags) e"
    using loads_avoid_quiet [OF inlined_loads_avoid [OF Cons.prems(1) t it]]
    by (simp add: fresh_flags_def)
  then have "Visit n M S fresh_flags e = Inr (fresh_flags, e)"
    by (rule quiet_Visit) (simp add: fresh_flags_def)
  with t Cons show ?case by simp
qed


lemma expand_while_stuck:
  assumes step: "expand_each M0 S0 ts0 e0 = Inr e0"
    and rescan: "CollectLoadTensors (inline_teller S0) e0 = ts0"
    and nonempty: "ts0 \<noteq> []"
  shows "expand_while M0 S0 ts0 e0 = None"
proof -
  have "expand_while M S ts e = Some r \<Longrightarrow> \<not> (M = M0 \<and> S = S0 \<and> ts = ts0 \<and> e = e0)"
    for M S ts e r
  proof (induction rule: expand_while.raw_induct [rotated, consumes 1])
    case (1 expand_while' M S ts e r)
    show ?case
    proof
      assume eq: "M = M0 \<and> S = S0 \<and> ts = ts0 \<and> e = e0"
      with 1(2) step rescan nonempty have "expand_while' M0 S0 ts0 e0 = Some r" by simp
      from 1(1) [OF this] show False by simp
    qed
  qed
  from this [of M0 S0 ts0 e0] show ?thesis by (cases "expand_while M0 S0 ts0 e0") auto
qed

section \<open>Index expressions\<close>

text \<open>
  The index expressions of a load are, in the common case, arithmetic over loop variables
  and constants. On these the effect of the mutator is a replacement of variables by zero,
  which \<open>zero_vars\<close> states directly.
\<close>

fun index_expr :: "Expr \<Rightarrow> bool" where
  "index_expr (IntImm i) = True"
| "index_expr (UIntImm n) = True"
| "index_expr (Var n bnds) = (bnds = None)"
| "index_expr (Unary op a) = index_expr a"
| "index_expr (Binary op a b) = (index_expr a \<and> index_expr b)"
| "index_expr (Cast a) = index_expr a"
| "index_expr e = False"

fun zero_vars :: "(string \<Rightarrow> bool) \<Rightarrow> Expr \<Rightarrow> Expr" where
  "zero_vars P (Var n bnds) = (if P n then IntImm 0 else Var n bnds)"
| "zero_vars P (Unary op a) = Unary op (zero_vars P a)"
| "zero_vars P (Binary op a b) = Binary op (zero_vars P a) (zero_vars P b)"
| "zero_vars P (Cast a) = Cast (zero_vars P a)"
| "zero_vars P e = e"

lemma index_expr_zero_vars: "index_expr e \<Longrightarrow> index_expr (zero_vars P e)"
  by (induction e rule: index_expr.induct) auto

lemma zero_vars_twice:
  "index_expr e \<Longrightarrow> zero_vars Q (zero_vars P e) = zero_vars (\<lambda>v. P v \<or> Q v) e"
  by (induction e rule: index_expr.induct) auto

lemma subst_vars_index_expr:
  "index_expr e \<Longrightarrow>
   subst_vars (\<lambda>n. if P n then Some (IntImm 0) else None) e = zero_vars P e"
proof (induction e rule: index_expr.induct)
  case (3 n bnds)
  then show ?case
    by (simp add: subst_vars_def IRMutate.simps [of _ "Var n None"] var_override_def)
next
  case (4 op a)
  then show ?case
    by (simp add: subst_vars_def IRMutate.simps [of _ "Unary op a"] var_override_def)
next
  case (5 op a b)
  then show ?case
    by (simp add: subst_vars_def IRMutate.simps [of _ "Binary op a b"] var_override_def)
next
  case (6 a)
  then show ?case
    by (simp add: subst_vars_def IRMutate.simps [of _ "Cast a"] var_override_def)
qed (simp_all add: subst_vars_def IRMutate.simps var_override_def)

lemma ReplaceVarWithExpr_index_expr:
  "index_expr e \<Longrightarrow> ReplaceVarWithExpr a (IntImm 0) e = zero_vars (\<lambda>v. v = a) e"
  using subst_vars_index_expr [of e "\<lambda>v. v = a"] by (simp add: ReplaceVarWithExpr_def)

lemma fold_ReplaceVarWithExpr_index_expr:
  "index_expr e \<Longrightarrow>
   fold (\<lambda>a. ReplaceVarWithExpr a (IntImm 0)) as e = zero_vars (\<lambda>v. v \<in> set as) e"
proof (induction as arbitrary: e)
  case Nil
  then show ?case by (induction e rule: index_expr.induct) auto
next
  case (Cons a as)
  have "fold (\<lambda>a. ReplaceVarWithExpr a (IntImm 0)) (a # as) e
      = fold (\<lambda>a. ReplaceVarWithExpr a (IntImm 0)) as (zero_vars (\<lambda>v. v = a) e)"
    using Cons.prems by (simp add: ReplaceVarWithExpr_index_expr)
  also have "\<dots> = zero_vars (\<lambda>v. v \<in> set as) (zero_vars (\<lambda>v. v = a) e)"
    using Cons.prems by (intro Cons.IH index_expr_zero_vars)
  also have "\<dots> = zero_vars (\<lambda>v. v = a \<or> v \<in> set as) e"
    using Cons.prems by (rule zero_vars_twice)
  finally show ?case by (simp add: disj_commute)
qed




section \<open>Expressions that the mutator leaves alone inside inlined code\<close>

text \<open>
  \<open>still tn M S tb ml e\<close>: inside inlined code, with the flags \<^verbatim>\<open>temp_buffer\<close> and
  \<^verbatim>\<open>memory_local\<close> at \<open>tb\<close> and \<open>ml\<close>, the mutator for \<open>tn\<close> finds nothing to rewrite along the
  traversal of \<open>e\<close>: no block or thread index variable that the \<^verbatim>\<open>_Var_\<close> handler zeroes, no
  tensor that the \<^verbatim>\<open>_Tensor_\<close> handler redirects, no load of \<open>tn\<close>, no load whose tensor has
  a buffer but no buffer in the tensor map, and no load of a cache or temporary buffer
  whose indices change under the compute-at zeroing. The clauses follow the branches of
  the handlers.
\<close>

function (sequential) still ::
  "string \<Rightarrow> tensor_map \<Rightarrow> (string \<Rightarrow> Stage) \<Rightarrow> bool \<Rightarrow> bool \<Rightarrow> Expr \<Rightarrow> bool" where
  "still tn M S tb ml (Var n bnds) =
     (\<not> (tb \<and> (Startswith n ''blockIdx'' \<or> (Startswith n ''threadIdx'' \<and> ml))))"
| "still tn M S tb ml (Tensor n sh bf ax body) =
     (\<not> Endswith n ''_write_cache''
      \<or> (case memory_type_at M n of Inl err \<Rightarrow> False | Inr mt \<Rightarrow> mt \<noteq> Heap))"
| "still tn M S tb ml (Load t indices) =
     (case as_tensor t of
        None \<Rightarrow> False
      | Some (n, bf, ax, body) \<Rightarrow>
          n \<noteq> tn \<and>
          (case bf of
             None \<Rightarrow> still tn M S tb ml t \<and> list_all (still tn M S tb ml) indices
           | Some (bn, bm) \<Rightarrow>
               (case memory_type_at M n of
                  Inl err \<Rightarrow> False
                | Inr mt \<Rightarrow>
                    if Endswith bn ''_write_cache'' \<and> mt = Heap then
                      if M (substr bn 1 (size_t_sub (length bn) 13)) \<noteq> None
                      then still tn M S tb ml t
                      else compute_at_zero (S n) indices = Inr indices
                    else if Endswith bn ''_write_cache'' \<or> Endswith bn ''_read_cache''
                        \<or> Endswith bn ''_temp_buffer'' then
                      compute_at_zero (S n) indices = Inr indices
                      \<and> still tn M S True (mt = GPULocal \<or> ml) t
                      \<and> list_all (still tn M S True (mt = GPULocal \<or> ml)) indices
                    else still tn M S tb ml t \<and> list_all (still tn M S tb ml) indices)))"
| "still tn M S tb ml e = list_all (still tn M S tb ml) (IRMutator_slots e)"
  by pat_completeness auto
termination
  by (relation "measure (\<lambda>(tn, M, S, tb, ml, e). size e)")
    (auto simp: less_Suc_eq_le defined_list_def dest: size_list_mem split: option.splits)

lemma still_Visit:
  "still tn M S (temp_buffer st) (memory_local st) e \<Longrightarrow> inline_code st \<Longrightarrow>
   Visit tn M S st e = Inr (st, e)"
  "list_all (still tn M S (temp_buffer st) (memory_local st)) es \<Longrightarrow> inline_code st \<Longrightarrow>
   VisitList tn M S st es = Inr (st, es)"
proof (induction tn M S st e and tn M S st es rule: Visit_VisitList.induct)
  case (1 tn M S st n bnds)
  then show ?case by auto
next
  case (2 tn M S st n sh bf ax body)
  then show ?case by (auto split: sum.splits)
next
  case (3 tn M S st t indices)
  from "3.prems" obtain n bf ax body where q: "as_tensor t = Some (n, bf, ax, body)" and n: "n \<noteq> tn"
    by (auto split: option.splits)
  show ?case
  proof (cases rule: Load_cases [where t = t and st = st and tn = tn and M = M])
    case null
    with q show ?thesis by simp
  next
    case untyped
    with q show ?thesis by simp
  next
    case (expand bf ax body)
    with q n show ?thesis by simp
  next
    case (outside n' bf' ax' body')
    with q "3.prems" have bf: "bf = None" and [simp]: "n' = n" "bf' = bf" by auto
    have st: "still tn M S (temp_buffer st) (memory_local st) t"
      and si: "list_all (still tn M S (temp_buffer st) (memory_local st)) indices"
      using "3.prems" q bf by auto
    have t: "Visit tn M S st t = Inr (st, t)"
      using q n bf st "3.prems"(2) by (intro "3.IH") auto
    have "VisitList tn M S st indices = Inr (st, indices)"
      using q n bf si t "3.prems"(2) by (intro "3.IH") auto
    with outside t show ?thesis by (simp add: Visit_Load_outside Visit_plain_def)
  next
    case (lookup_error n' bn bm ax' body' err)
    with q "3.prems" show ?thesis by auto
  next
    case (redirect n' bn bm ax' body')
    with q "3.prems" have st: "still tn M S (temp_buffer st) (memory_local st) t" by auto
    have t: "Visit tn M S st t = Inr (st, t)"
      using redirect st "3.prems"(2) by (intro "3.IH") auto
    with redirect show ?thesis by (simp add: Visit_Load_redirect)
  next
    case (zero_only n' bn bm ax' body')
    with q "3.prems" have "compute_at_zero (S n') indices = Inr indices" by auto
    with zero_only show ?thesis by (simp add: Visit_Load_zero_only)
  next
    case (temp n' bn bm ax' body' mt)
    let ?st1 = "st\<lparr>temp_buffer := True, memory_local := (mt = GPULocal \<or> memory_local st)\<rparr>"
    from temp q "3.prems" have z: "compute_at_zero (S n') indices = Inr indices"
      and st: "still tn M S True (mt = GPULocal \<or> memory_local st) t"
      and si: "list_all (still tn M S True (mt = GPULocal \<or> memory_local st)) indices"
      by auto
    have t: "Visit tn M S ?st1 t = Inr (?st1, t)"
      using temp z st "3.prems"(2) by (intro "3.IH") auto
    have "VisitList tn M S ?st1 indices = Inr (?st1, indices)"
      using temp z si t "3.prems"(2) by (intro "3.IH") auto
    with temp z t show ?thesis by (simp add: Visit_Load_temp [where mt = mt])
  next
    case (other n' bn bm ax' body' mt)
    with q "3.prems" have st: "still tn M S (temp_buffer st) (memory_local st) t"
      and si: "list_all (still tn M S (temp_buffer st) (memory_local st)) indices"
      by auto
    have t: "Visit tn M S st t = Inr (st, t)"
      using other st "3.prems"(2) by (intro "3.IH") auto
    have "VisitList tn M S st indices = Inr (st, indices)"
      using other si t "3.prems"(2) by (intro "3.IH") auto
    with other t show ?thesis by (simp add: Visit_Load_other Visit_plain_def)
  qed
next
  case (4 tn M S st exts c b)
  have q: "list_all (still tn M S (temp_buffer st) (memory_local st)) (exts @ defined_list c)"
    and qb: "\<And>b0. b = Some b0 \<Longrightarrow> still tn M S (temp_buffer st) (memory_local st) b0"
    using "4.prems" by (auto simp: defined_list_def)
  have l: "VisitList tn M S st (exts @ defined_list c) = Inr (st, exts @ defined_list c)"
    using q "4.prems"(2) by (intro "4.IH")
  show ?case
  proof (cases b)
    case None
    with l show ?thesis by (cases c) (auto simp: defined_list_def)
  next
    case (Some b0)
    have "Visit tn M S st b0 = Inr (st, b0)"
      using l Some qb "4.prems"(2) by (intro "4.IH") auto
    with l Some show ?thesis by (cases c) (auto simp: defined_list_def)
  qed
next
  case (6 tn M S st)
  show ?case by simp
next
  case (7 tn M S st x xs)
  have x: "Visit tn M S st x = Inr (st, x)"
    using "7.prems" by (intro "7.IH") auto
  have "VisitList tn M S st xs = Inr (st, xs)"
    using x "7.prems" by (intro "7.IH") auto
  with x show ?case by simp
qed (simp_all del: IRMutator_slots.simps IRMutator_store.simps add: store_slots)

text \<open>
  The modelled \<^verbatim>\<open>inline_expanded\<close> is positional: the formal index variable at position \<open>k\<close>
  is replaced by the actual index at position \<open>k\<close>.
\<close>

lemma inline_expanded_formal:
  "distinct ax \<Longrightarrow> k < length ax \<Longrightarrow> k < length indices \<Longrightarrow>
   inline_expanded ax (Some (Var (ax ! k) None)) indices = Inr (indices ! k)"
proof -
  assume d: "distinct ax" and k: "k < length ax" "k < length indices"
  have "distinct (map fst (zip ax indices))"
    using d by (simp add: map_fst_zip_take distinct_take)
  moreover have "(ax ! k, indices ! k) \<in> set (zip ax indices)"
    using k by (auto simp: set_zip)
  ultimately have "map_of (zip ax indices) (ax ! k) = Some (indices ! k)"
    by (rule map_of_is_SomeI)
  then show ?thesis
    by (simp add: inline_expanded_def subst_vars_def IRMutate_override var_override_def)
qed

section \<open>The compute-at zeroing of an index\<close>

text \<open>
  \<open>zero_axes as e\<close> is the inner loop of lines 97-101 and 118-122 of
  \<^verbatim>\<open>compute_inline_expand.cc\<close> on one index \<open>e\<close>: the variables named in \<open>as\<close> are replaced by
  zero, one after the other. \<open>level_axes sg L\<close> are the axis names \<^verbatim>\<open>axis_names[0..L]\<close> of the
  stage \<open>sg\<close>. A variable named in \<open>as\<close> becomes zero; on every other variable and every
  node other than an \<^verbatim>\<open>Alloc\<close> the replacement goes to the children that the default
  traversal visits and keeps the node.
\<close>

definition zero_axes :: "string list \<Rightarrow> Expr \<Rightarrow> Expr" where
  "zero_axes as = fold (\<lambda>a. ReplaceVarWithExpr a (IntImm 0)) as"


definition is_Var :: "Expr \<Rightarrow> bool" where
  "is_Var e = (case e of Var n b \<Rightarrow> True | _ \<Rightarrow> False)"


lemma zero_axes_index_expr:
  "index_expr e \<Longrightarrow> zero_axes as e = zero_vars (\<lambda>v. v \<in> set as) e"
  by (simp add: zero_axes_def fold_ReplaceVarWithExpr_index_expr)

lemma store_store:
  "length cs = length (IRMutator_slots e) \<Longrightarrow> length cs' = length (IRMutator_slots e) \<Longrightarrow>
   IRMutator_store (IRMutator_store e cs) cs' = IRMutator_store e cs'"
proof (cases e)
  case (Buffer n m sh st off)
  assume len: "length cs = length (IRMutator_slots e)" "length cs' = length (IRMutator_slots e)"
  with Buffer have "length (drop (length sh + length st) cs) = 1"
    "length (drop (length sh + length st) cs') = 1" by simp_all
  then obtain a b where "drop (length sh + length st) cs = [a]"
    "drop (length sh + length st) cs' = [b]"
    by (metis One_nat_def length_0_conv length_Suc_conv)
  with Buffer len show ?thesis by (simp add: min_def)
qed (auto simp: defined_list_def length_Suc_conv split: option.splits list.splits)

lemma is_Var_store: "is_Var (IRMutator_store e cs) = is_Var e"
  by (cases e) (auto simp: is_Var_def split: list.splits)

lemma is_Alloc_store: "is_Alloc (IRMutator_store e cs) = is_Alloc e"
  by (cases e) (auto simp: is_Alloc_def split: list.splits)

lemma ReplaceVarWithExpr_default:
  "\<not> is_Var e \<Longrightarrow> \<not> is_Alloc e \<Longrightarrow>
   ReplaceVarWithExpr a r e = IRMutator_store e (map (ReplaceVarWithExpr a r) (IRMutator_slots e))"
  unfolding ReplaceVarWithExpr_def subst_vars_def
  by (subst IRMutate_default) (auto simp: var_override_def is_Var_def split: Expr.splits)

lemma zero_axes_default:
  "\<not> is_Var e \<Longrightarrow> \<not> is_Alloc e \<Longrightarrow>
   zero_axes as e = IRMutator_store e (map (zero_axes as) (IRMutator_slots e))"
proof (induction as arbitrary: e)
  case Nil
  then show ?case by (simp add: zero_axes_def store_slots)
next
  case (Cons a as)
  let ?cs = "map (ReplaceVarWithExpr a (IntImm 0)) (IRMutator_slots e)"
  have "zero_axes (a # as) e = zero_axes as (IRMutator_store e ?cs)"
    using Cons.prems by (simp add: zero_axes_def ReplaceVarWithExpr_default [symmetric])
  also have "\<dots> = IRMutator_store (IRMutator_store e ?cs)
       (map (zero_axes as) (IRMutator_slots (IRMutator_store e ?cs)))"
    using Cons.prems by (intro Cons.IH) (simp_all add: is_Var_store is_Alloc_store)
  also have "IRMutator_slots (IRMutator_store e ?cs) = ?cs"
    using Cons.prems by (intro slots_store) simp_all
  also have "IRMutator_store (IRMutator_store e ?cs) (map (zero_axes as) ?cs)
      = IRMutator_store e (map (zero_axes as) ?cs)"
    by (intro store_store) simp_all
  finally show ?case by (simp add: zero_axes_def comp_def)
qed

lemma zero_axes_Var:
  "zero_axes as (Var n None) = (if n \<in> set as then IntImm 0 else Var n None)"
  using zero_axes_index_expr [of "Var n None" as] by simp

lemma zero_axes_imm: "zero_axes as (IntImm 0) = IntImm 0"
  by (subst zero_axes_default) (simp_all add: is_Var_def is_Alloc_def)

lemma zero_axes_any_Var:
  "zero_axes as (Var n bnds) =
     (if n \<in> set as then IntImm 0
      else IRMutator_store (Var n bnds) (map (zero_axes as) (IRMutator_slots (Var n bnds))))"
proof (induction as arbitrary: bnds)
  case Nil
  show ?case by (cases bnds) (auto simp: zero_axes_def)
next
  case (Cons a as)
  show ?case
  proof (cases "n = a")
    case True
    then have "ReplaceVarWithExpr a (IntImm 0) (Var n bnds) = IntImm 0"
      by (simp add: ReplaceVarWithExpr_def subst_vars_def IRMutate_override var_override_def)
    then have "zero_axes (a # as) (Var n bnds) = zero_axes as (IntImm 0)"
      by (simp add: zero_axes_def)
    with True show ?thesis by (simp add: zero_axes_imm)
  next
    case False
    let ?bnds' = "map_option (\<lambda>(lo, hi). (ReplaceVarWithExpr a (IntImm 0) lo,
        ReplaceVarWithExpr a (IntImm 0) hi)) bnds"
    have r: "ReplaceVarWithExpr a (IntImm 0) (Var n bnds) = Var n ?bnds'"
      using False
      by (cases bnds)
        (auto simp: ReplaceVarWithExpr_def subst_vars_def IRMutate_default var_override_def
           is_Alloc_def)
    have "zero_axes (a # as) (Var n bnds) = zero_axes as (Var n ?bnds')"
      using r by (simp add: zero_axes_def)
    also have "\<dots> = (if n \<in> set as then IntImm 0
        else IRMutator_store (Var n ?bnds') (map (zero_axes as) (IRMutator_slots (Var n ?bnds'))))"
      by (rule Cons.IH)
    finally show ?thesis using False by (cases bnds) (auto simp: zero_axes_def)
  qed
qed

section \<open>Trees on which the pass ends\<close>

















































section \<open>Concrete tensors, maps and stages\<close>

text \<open>
  \<open>T\<close> is inlined with the expansion \<open>E(i, j) = A[i, j] + B[j]\<close>; \<open>C\<close> is a device-local
  temporary buffer computing at level 1 of the axes \<open>i, j, k\<close>; \<open>A_write_cache\<close> is a
  heap-scope write cache of \<open>A\<close>; \<open>U\<close> expands to a load of \<open>C\<close>; \<open>const_T\<close> is inlined with a
  constant expansion, so it depends on no tensor.
\<close>

definition zero_n :: "Expr \<Rightarrow> Expr option" where
  "zero_n e = (if e = Var ''n'' None then Some (IntImm 0) else None)"

definition plain_stages :: "string \<Rightarrow> Stage" where
  "plain_stages n = \<lparr>inlined = False, axis_names = [], compute_ats = []\<rparr>"

definition temp_tensor :: Expr where
  "temp_tensor = Tensor ''C'' [] (Some (''_C_temp_buffer'', GPULocal)) [] None"

definition temp_map :: tensor_map where
  "temp_map = [''C'' \<mapsto> temp_tensor]"

definition temp_stages :: "string \<Rightarrow> Stage" where
  "temp_stages n =
     (if n = ''C'' then \<lparr>inlined = False, axis_names = [''i'', ''j'', ''k''], compute_ats = [(''D'', 1)]\<rparr>
      else \<lparr>inlined = False, axis_names = [], compute_ats = []\<rparr>)"

definition inline_flags :: flags where
  "inline_flags = \<lparr>inline_code = True, temp_buffer = False, memory_local = False\<rparr>"


definition plain_tensor :: Expr where
  "plain_tensor = Tensor ''A'' [] (Some (''_A'', Heap)) [] None"



definition tensor_A :: Expr where
  "tensor_A = Tensor ''A'' [] None [] None"

definition tensor_B :: Expr where
  "tensor_B = Tensor ''B'' [] None [] None"

definition tensor_T :: Expr where
  "tensor_T = Tensor ''T'' [] None [''i'', ''j'']
     (Some (Binary OpAdd (Load tensor_A [Var ''i'' None, Var ''j'' None])
                         (Load tensor_B [Var ''j'' None])))"

definition tensor_U :: Expr where
  "tensor_U = Tensor ''U'' [] None [''i''] (Some (Load temp_tensor [Var ''i'' None]))"

definition inline_T :: "string \<Rightarrow> Stage" where
  "inline_T n = \<lparr>inlined = (n = ''T''), axis_names = [], compute_ats = []\<rparr>"

definition stored_load :: Expr where
  "stored_load =
     Store tensor_A (Load tensor_T [Binary OpAdd (Var ''x'' None) (IntImm 1), Var ''y'' None])
       [Var ''x'' None, Var ''y'' None]"

definition stored_sum :: Expr where
  "stored_sum =
     Store tensor_A
       (Binary OpAdd
         (Load tensor_A [Binary OpAdd (Var ''x'' None) (IntImm 1), Var ''y'' None])
         (Load tensor_B [Var ''y'' None]))
       [Var ''x'' None, Var ''y'' None]"

definition const_T :: Expr where
  "const_T = Tensor ''T'' [] None [''i''] (Some (IntImm 7))"

definition loop_with_load :: Expr where
  "loop_with_load =
     PolyFor ''i'' (Load const_T [IntImm 0]) (Binary OpLT (Var ''i'' None) (IntImm 8))
       (IntImm 1) (Block [])"

definition alloc_with_load :: Expr where
  "alloc_with_load = Alloc [] None (Some (Load const_T [IntImm 0]))"

text \<open>
  More tensors: \<open>B\<close> bound to a heap buffer, and \<open>buffered_T\<close>, the tensor \<open>T\<close> over the
  buffered \<open>A\<close> and \<open>B\<close>; \<open>A_cached\<close>, a tensor on the write-cache buffer of \<open>A\<close> whose own name
  has no suffix; \<open>L\<close> and \<open>Sh\<close>, temporary buffers in device-local and in device-shared
  memory; \<open>V\<close>, \<open>W\<close> and \<open>X\<close>, inlined tensors whose expansions load \<open>L\<close> and \<open>Sh\<close>;
  \<open>block_stages\<close>, where the third axis of \<open>C\<close> is a block index; a loop over the stored
  load of \<open>T\<close> and over the stored sum.
\<close>

definition plain_B :: Expr where
  "plain_B = Tensor ''B'' [] (Some (''_B'', Heap)) [] None"

definition heap_map :: tensor_map where
  "heap_map = [''A'' \<mapsto> plain_tensor, ''B'' \<mapsto> plain_B]"

definition buffered_T :: Expr where
  "buffered_T = Tensor ''T'' [] None [''i'', ''j'']
     (Some (Binary OpAdd (Load plain_tensor [Var ''i'' None, Var ''j'' None])
                         (Load plain_B [Var ''j'' None])))"




definition local_tensor :: Expr where
  "local_tensor = Tensor ''L'' [] (Some (''_L_temp_buffer'', GPULocal)) [] None"

definition shared_tensor :: Expr where
  "shared_tensor = Tensor ''Sh'' [] (Some (''_Sh_temp_buffer'', GPUShared)) [] None"

definition flag_map :: tensor_map where
  "flag_map = [''L'' \<mapsto> local_tensor, ''Sh'' \<mapsto> shared_tensor]"

definition tensor_V :: Expr where
  "tensor_V = Tensor ''V'' [] None [''i'']
     (Some (Load local_tensor [Var ''i'' None, Var ''blockIdx.x'' None]))"

definition tensor_W :: Expr where
  "tensor_W = Tensor ''W'' [] None [''i'']
     (Some (Load local_tensor [Load shared_tensor [Var ''threadIdx.x'' None, Var ''i'' None]]))"

definition tensor_X :: Expr where
  "tensor_X = Tensor ''X'' [] None [''i'']
     (Some (Load shared_tensor [Var ''threadIdx.x'' None, Var ''i'' None]))"

definition inline_VWX :: "string \<Rightarrow> Stage" where
  "inline_VWX n =
     \<lparr>inlined = (n = ''V'' \<or> n = ''W'' \<or> n = ''X''), axis_names = [], compute_ats = []\<rparr>"



section \<open>The claims\<close>

subsection \<open>C1: no load of an inlined tensor is left\<close>



subsection \<open>C2: the rewrite of a load of the inlined tensor\<close>

text \<open>
  C2 as stated fails: the expansion is visited again inside inlined code, so the result is
  not always the substituted expression. The tensor \<open>U\<close> expands to a load of the temporary
  tensor \<open>C\<close> (computing at level 1 of the axes \<open>i, j, k\<close>); the load \<open>U[i]\<close> becomes \<open>C[0]\<close>,
  not the substituted expression \<open>C[i]\<close>.
\<close>

theorem C2_counterexample:
  "as_tensor tensor_U = Some (''U'', None, [''i''], Some (Load temp_tensor [Var ''i'' None]))
   \<and> inline_expanded [''i''] (Some (Load temp_tensor [Var ''i'' None])) [Var ''i'' None]
       = Inr (Load temp_tensor [Var ''i'' None])
   \<and> axis_names (temp_stages ''C'') = [''i'', ''j'', ''k'']
   \<and> Visit ''U'' temp_map temp_stages fresh_flags (Load tensor_U [Var ''i'' None])
       = Inr (fresh_flags, Load temp_tensor [IntImm 0])"
  by code_simp

text \<open>
  C2, amended: the load of the tensor being inlined is replaced by the inline expansion of
  the tensor at the indices of the load (\<^verbatim>\<open>inline_expanded\<close>: the formal index variables
  replaced, by position, by the actual indices), and this expression is then visited
  inside inlined code; the result is the outcome of that visit, with the flag
  \<^verbatim>\<open>inline_code\<close> false afterwards. The result is exactly the substituted expression when it
  is \<open>still\<close>, that is when the visit finds nothing to rewrite in it; loads of tensors that
  are bound to buffers do not prevent this.
\<close>

theorem C2_inline_substitution:
  assumes "as_tensor t = Some (tn, bf, ax, body)"
    and "inline_expanded ax body indices = Inr e1"
  shows "Visit tn M S st (Load t indices) =
      (case Visit tn M S (st\<lparr>inline_code := True\<rparr>) e1 of
         Inl err \<Rightarrow> Inl err
       | Inr (st1, e2) \<Rightarrow> Inr (st1\<lparr>inline_code := False\<rparr>, e2))
    \<and> (still tn M S (temp_buffer st) (memory_local st) e1 \<longrightarrow>
        Visit tn M S st (Load t indices) = Inr (st\<lparr>inline_code := False\<rparr>, e1))"
proof -
  have v: "Visit tn M S st (Load t indices) =
      (case Visit tn M S (st\<lparr>inline_code := True\<rparr>) e1 of
         Inl err \<Rightarrow> Inl err
       | Inr (st1, e2) \<Rightarrow> Inr (st1\<lparr>inline_code := False\<rparr>, e2))"
    using assms by (simp add: Visit_Load_expand)
  have "Visit tn M S (st\<lparr>inline_code := True\<rparr>) e1 = Inr (st\<lparr>inline_code := True\<rparr>, e1)"
    if "still tn M S (temp_buffer st) (memory_local st) e1"
    using that by (intro still_Visit) auto
  with v show ?thesis by simp
qed

text \<open>
  The instance of the specification, with \<open>A\<close> and \<open>B\<close> bound to heap buffers: with
  \<open>E(i, j) = A[i, j] + B[j]\<close> the load \<open>T[x + 1, y]\<close> becomes \<open>A[x + 1, y] + B[y]\<close>.
\<close>

theorem C2_inline_substitution_witness:
  "Visit ''T'' heap_map inline_T fresh_flags
      (Load buffered_T [Binary OpAdd (Var ''x'' None) (IntImm 1), Var ''y'' None])
   = Inr (fresh_flags,
       Binary OpAdd
         (Load plain_tensor [Binary OpAdd (Var ''x'' None) (IntImm 1), Var ''y'' None])
         (Load plain_B [Var ''y'' None]))"
proof -
  let ?b = "Binary OpAdd (Load plain_tensor [Var ''i'' None, Var ''j'' None])
                         (Load plain_B [Var ''j'' None])"
  let ?idx = "[Binary OpAdd (Var ''x'' None) (IntImm 1), Var ''y'' None]"
  let ?e1 = "Binary OpAdd
         (Load plain_tensor [Binary OpAdd (Var ''x'' None) (IntImm 1), Var ''y'' None])
         (Load plain_B [Var ''y'' None])"
  have 1: "as_tensor buffered_T = Some (''T'', None, [''i'', ''j''], Some ?b)" by code_simp
  have 2: "inline_expanded [''i'', ''j''] (Some ?b) ?idx = Inr ?e1" by code_simp
  have 3: "still ''T'' heap_map inline_T (temp_buffer fresh_flags) (memory_local fresh_flags) ?e1"
    by code_simp
  have f: "fresh_flags\<lparr>inline_code := False\<rparr> = fresh_flags" by (simp add: fresh_flags_def)
  from C2_inline_substitution [OF 1 2, of heap_map inline_T fresh_flags] 3
  have "Visit ''T'' heap_map inline_T fresh_flags (Load buffered_T ?idx)
      = Inr (fresh_flags\<lparr>inline_code := False\<rparr>, ?e1)"
    by blast
  then show ?thesis unfolding f .
qed

subsection \<open>C3: the loop on an acyclic input\<close>

text \<open>
  C3 says that the loop of \<^verbatim>\<open>ComputeInlineExpand\<close> ends on every tree whose inlined tensors
  do not depend on each other in a cycle. It does not: the inlined tensor \<open>const_T\<close> has a
  constant expansion and depends on no tensor, but a load of it in the init of a
  \<^verbatim>\<open>PolyFor\<close> is never reached by the mutator, and a load of it that is the body of an
  \<^verbatim>\<open>Alloc\<close> is expanded in a copy of the slot only; the tree is the same after every round,
  the scan finds the load again, and the loop does not return.
\<close>

theorem C3_loops_forever:
  "expansion_loads const_T = []
   \<and> ComputeInlineExpand Map.empty inline_T loop_with_load = None
   \<and> ComputeInlineExpand Map.empty inline_T alloc_with_load = None"
proof -
  have d: "expansion_loads const_T = []" by code_simp
  have p0: "CollectIRNodes (inline_teller inline_T) loop_with_load = [const_T]" by code_simp
  have p1: "expand_each Map.empty inline_T [const_T] loop_with_load = Inr loop_with_load"
    by code_simp
  have p2: "CollectLoadTensors (inline_teller inline_T) loop_with_load = [const_T]" by code_simp
  have a0: "CollectIRNodes (inline_teller inline_T) alloc_with_load = [const_T]" by code_simp
  have a1: "expand_each Map.empty inline_T [const_T] alloc_with_load = Inr alloc_with_load"
    by code_simp
  have a2: "CollectLoadTensors (inline_teller inline_T) alloc_with_load = [const_T]" by code_simp
  show ?thesis
    unfolding ComputeInlineExpand_def p0 a0
    using d expand_while_stuck [OF p1 p2] expand_while_stuck [OF a1 a2] by simp
qed

subsection \<open>C4: the default traversal\<close>

text \<open>
  C4 says that the default traversal recurses into every owned child of every compound kind,
  in particular into the min, extent, increment and body of a \<^verbatim>\<open>PolyFor\<close> and into the tensor
  handle and the indices of a \<^verbatim>\<open>Load\<close>. The code does not: run with a handler that overwrites
  the variable \<open>n\<close> by zero, the default traversal leaves the init and the condition of a
  \<^verbatim>\<open>PolyFor\<close> and the tensor slot of a \<^verbatim>\<open>Load\<close> as they were, while the sibling handlers of
  \<^verbatim>\<open>For\<close> and \<^verbatim>\<open>Store\<close> reach the corresponding children.
\<close>

theorem C4_default_traversal_skips_children:
  "IRMutate zero_n
      (PolyFor ''i'' (Var ''n'' None) (Var ''n'' None) (Var ''n'' None) (Var ''n'' None))
    = PolyFor ''i'' (Var ''n'' None) (Var ''n'' None) (IntImm 0) (IntImm 0)
  \<and> IRMutate zero_n (For ''i'' (Var ''n'' None) (Var ''n'' None) (Var ''n'' None))
    = For ''i'' (IntImm 0) (IntImm 0) (IntImm 0)
  \<and> IRMutate zero_n (Load (Var ''n'' None) [Var ''n'' None])
    = Load (Var ''n'' None) [IntImm 0]
  \<and> IRMutate zero_n (Store (Var ''n'' None) (Var ''n'' None) [Var ''n'' None])
    = Store (IntImm 0) (IntImm 0) [IntImm 0]"
  by code_simp

subsection \<open>C5: compute-at zeroing of the indices of a cache or temporary tensor\<close>




subsection \<open>C6: the redirection of a heap-scope write cache\<close>




subsection \<open>C7: block and thread index variables on a temporary buffer\<close>

text \<open>
  C7 says that, inside inlined code on a temporary buffer, every block index variable
  becomes zero and a thread index variable becomes zero exactly when the current buffer
  is device-local. The \<^verbatim>\<open>_Var_\<close> handler decides by the flags \<^verbatim>\<open>inline_code\<close>, \<^verbatim>\<open>temp_buffer\<close>
  and \<^verbatim>\<open>memory_local\<close>, and the \<^verbatim>\<open>Load\<close> handler does not keep them in step with the claim:

  \<^item> line 73 sets \<^verbatim>\<open>inline_code\<close> to false after every expansion, also after a nested one
    (the flags \<^verbatim>\<open>temp_buffer\<close> and \<^verbatim>\<open>memory_local\<close> are saved and restored, lines 125-138). In
    \<open>V[V[5]]\<close>, with \<open>V(i) = L[i, blockIdx.x]\<close>, the block index of the inner expansion
    becomes zero and the one of the outer expansion, visited after the inner one, stays,
    although \<open>V[5]\<close> alone becomes \<open>L[5, 0]\<close>;
  \<^item> lines 128-130 only raise \<^verbatim>\<open>memory_local\<close>. The thread index in the device-shared
    buffer \<open>Sh\<close> stays when \<open>Sh\<close> is loaded on its own (\<open>X\<close>) and becomes zero when the load
    of \<open>Sh\<close> is an index of the device-local buffer \<open>L\<close> (\<open>W\<close>).
\<close>

theorem C7_flags_leak:
  "ComputeInlineExpand flag_map inline_VWX (Load tensor_V [IntImm 5])
     = Some (Inr (Load local_tensor [IntImm 5, IntImm 0]))
   \<and> ComputeInlineExpand flag_map inline_VWX (Load tensor_V [Load tensor_V [IntImm 5]])
     = Some (Inr (Load local_tensor
                    [Load local_tensor [IntImm 5, IntImm 0], Var ''blockIdx.x'' None]))
   \<and> ComputeInlineExpand flag_map inline_VWX (Load tensor_X [IntImm 5])
     = Some (Inr (Load shared_tensor [Var ''threadIdx.x'' None, IntImm 5]))
   \<and> ComputeInlineExpand flag_map inline_VWX (Load tensor_W [IntImm 5])
     = Some (Inr (Load local_tensor [Load shared_tensor [IntImm 0, IntImm 5]]))"
  by code_simp

subsection \<open>C8: the gathered extent of a device axis\<close>

text \<open>
  C8: the bound gathered for a device axis is the maximum of the extents that the stages
  of the group bind to it (and there is none when no stage binds the axis): with the
  extents 128 and 64 on the first block axis the bound is 128.
\<close>

theorem C8_axis_extent_maximum:
  "GatherAxisInfoFromStages stage_group a =
     (if extents_on a stage_group = [] then None
      else Some (Max (set (extents_on a stage_group))))"
proof -
  have "GatherAxisInfoFromStages stage_group = fold record_extent (concat stage_group) Map.empty"
    by (simp add: GatherAxisInfoFromStages_def fold_fold_concat fun_eq_iff)
  then show ?thesis
    by (simp add: fold_record_extent extents_on_def)
qed

theorem C8_axis_extent_maximum_witness:
  "GatherAxisInfoFromStages [[((GPUBlock, 0), 128)], [((GPUBlock, 0), 64), ((GPUThread, 0), 32)]]
      (GPUBlock, 0) = Some 128"
  using C8_axis_extent_maximum
    [of "[[((GPUBlock, 0), 128)], [((GPUBlock, 0), 64), ((GPUThread, 0), 32)]]" "(GPUBlock, 0)"]
  by (simp add: extents_on_def)

subsection \<open>C9: a tree without loads of inlined tensors\<close>

text \<open>
  C9: on a tree in which no load references a tensor whose stage is inlined,
  \<^verbatim>\<open>ComputeInlineExpand\<close> returns the tree unchanged; the result of a run of the pass is
  such a tree, so a second run changes nothing.
\<close>

theorem C9_no_inlined_load_unchanged:
  assumes "no_inlined_load S e"
  shows "ComputeInlineExpand M S e = Some (Inr e)"
proof -
  let ?ts = "CollectIRNodes (inline_teller S) e"
  have ts: "\<forall>t \<in> set ?ts. inline_teller S t" by (simp add: CollectIRNodes_def)
  have c: "CollectLoadTensors (inline_teller S) e = []"
    using assms by (simp add: CollectLoadTensors_empty)
  have "expand_while M S ?ts e = Some (Inr e)"
  proof (cases "?ts = []")
    case True
    then show ?thesis by (subst expand_while.simps) simp
  next
    case False
    then have "expand_while M S ?ts e
        = expand_while M S (CollectLoadTensors (inline_teller S) e) e"
      by (subst expand_while.simps) (simp add: expand_each_unchanged [OF assms ts])
    also have "\<dots> = Some (Inr e)" unfolding c by (subst expand_while.simps) simp
    finally show ?thesis .
  qed
  then show ?thesis by (simp add: ComputeInlineExpand_def)
qed

theorem C9_no_inlined_load_unchanged_witness:
  "ComputeInlineExpand Map.empty inline_T stored_load = Some (Inr stored_sum)
   \<and> ComputeInlineExpand Map.empty inline_T stored_sum = Some (Inr stored_sum)"
proof -
  have run: "ComputeInlineExpand Map.empty inline_T stored_load = Some (Inr stored_sum)"
    by code_simp
  have "CollectLoadTensors (inline_teller inline_T) stored_sum = []" by code_simp
  then have "no_inlined_load inline_T stored_sum" by (simp add: CollectLoadTensors_empty)
  from C9_no_inlined_load_unchanged [OF this, of Map.empty] run show ?thesis by simp
qed

subsection \<open>C10: the temporary-buffer flags are restored\<close>

text \<open>
  C10: when the \<^verbatim>\<open>Load\<close> handler returns, the flags \<^verbatim>\<open>temp_buffer\<close> and \<^verbatim>\<open>memory_local\<close> have
  the values they had when the load was entered. This holds for every load (the handler
  of a cache or temporary buffer sets the flags and restores them from \<^verbatim>\<open>keep_buffer\<close> and
  \<^verbatim>\<open>keep_memory_local\<close>; no other handler writes them), so the zeroing of block and thread
  index variables does not reach the expressions visited after the load.
\<close>

theorem C10_temp_flags_restored:
  "Visit tn M S st (Load t indices) = Inr (st', e') \<Longrightarrow>
   temp_buffer st' = temp_buffer st \<and> memory_local st' = memory_local st"
  using Visit_keeps(1) [of st tn M S "Load t indices"] by simp

theorem C10_temp_flags_restored_witness:
  "Visit ''T'' temp_map temp_stages inline_flags
      (Load temp_tensor [Var ''threadIdx.x'' None, Var ''k'' None])
     = Inr (inline_flags, Load temp_tensor [IntImm 0, Var ''k'' None])
   \<and> temp_buffer inline_flags = False \<and> memory_local inline_flags = False
   \<and> VisitList ''T'' temp_map temp_stages inline_flags
        [Load temp_tensor [Var ''threadIdx.x'' None, Var ''k'' None], Var ''threadIdx.x'' None]
     = Inr (inline_flags,
         [Load temp_tensor [IntImm 0, Var ''k'' None], Var ''threadIdx.x'' None])"
proof -
  have v: "Visit ''T'' temp_map temp_stages inline_flags
      (Load temp_tensor [Var ''threadIdx.x'' None, Var ''k'' None])
     = Inr (inline_flags, Load temp_tensor [IntImm 0, Var ''k'' None])"
    by code_simp
  have l: "VisitList ''T'' temp_map temp_stages inline_flags
        [Load temp_tensor [Var ''threadIdx.x'' None, Var ''k'' None], Var ''threadIdx.x'' None]
     = Inr (inline_flags,
         [Load temp_tensor [IntImm 0, Var ''k'' None], Var ''threadIdx.x'' None])"
    by code_simp
  from C10_temp_flags_restored [OF v] v l show ?thesis by (simp add: inline_flags_def)
qed

end
